theory Spec2Isabelle
  imports Complex_Main "HOL-Library.Sublist"
begin

section \<open>Python values\<close>

text \<open>
  A Python \<^verbatim>\<open>str\<close> is a sequence of Unicode code points, and \<^verbatim>\<open>len\<close>, indexing and
  slicing count code points. A string is therefore modelled as the list of its code
  points; \<open>lit\<close> turns an ASCII literal into that form. Characters that are awkward in a
  literal are written by number: 10 is the newline, 34 the double quote, 92 the
  backslash, 123 and 125 the braces, 96 the backtick, 58 the colon.
\<close>

type_synonym pystr = "nat list"

definition lit :: "string \<Rightarrow> pystr" where
  "lit s = map of_char s"

text \<open>Exceptions are values: a fallible operation returns \<open>py_error + 'a\<close>.\<close>

datatype py_error = IndexError | KeyError pystr | TypeError | AttributeError | ZeroDivisionError

text \<open>\<^verbatim>\<open>text[i]\<close>: a negative index counts from the end, an index out of range raises.\<close>

definition getitem :: "pystr \<Rightarrow> int \<Rightarrow> py_error + nat" where
  "getitem text i =
     (let n = int (length text); j = (if i < 0 then n + i else i)
      in if 0 \<le> j \<and> j < n then Inr (text ! nat j) else Inl IndexError)"

text \<open>\<^verbatim>\<open>text[a:b]\<close> for indices that are not negative; a slice never raises.\<close>

definition slice :: "pystr \<Rightarrow> nat \<Rightarrow> nat \<Rightarrow> pystr" where
  "slice text a b = take (b - a) (drop a text)"

section \<open>String methods\<close>

text \<open>
  \<^verbatim>\<open>str.isspace\<close> for one code point: Python's whitespace (the class that \<^verbatim>\<open>str.strip()\<close>
  removes and that \<^verbatim>\<open>\s\<close> matches in a \<^verbatim>\<open>str\<close> pattern).
\<close>

definition isspace :: "nat \<Rightarrow> bool" where
  "isspace c \<longleftrightarrow>
     (9 \<le> c \<and> c \<le> 13) \<or> (28 \<le> c \<and> c \<le> 32) \<or> c = 133 \<or> c = 160 \<or> c = 5760
     \<or> (8192 \<le> c \<and> c \<le> 8202) \<or> c = 8232 \<or> c = 8233 \<or> c = 8239 \<or> c = 8287
     \<or> c = 12288"

text \<open>\<^verbatim>\<open>s.strip()\<close>: whitespace removed at both ends.\<close>

definition strip :: "pystr \<Rightarrow> pystr" where
  "strip s = rev (dropWhile isspace (rev (dropWhile isspace s)))"

text \<open>\<^verbatim>\<open>text.find(pat)\<close>: the first index at which \<open>pat\<close> occurs, \<open>None\<close> for \<^verbatim>\<open>-1\<close>.\<close>

definition find_sub :: "pystr \<Rightarrow> pystr \<Rightarrow> nat option" where
  "find_sub pat text = List.find (\<lambda>i. prefix pat (drop i text)) [0..<Suc (length text)]"

text \<open>
  \<^verbatim>\<open>s.splitlines()\<close>: lines are ended by a line feed, a carriage return (with the line
  feed that follows it, if any), a vertical tab, a form feed, the separators 28 to 30,
  NEL (133) and the Unicode line and paragraph separators; the line ends are dropped,
  and no empty line follows a final line end.
\<close>

definition is_linebreak :: "nat \<Rightarrow> bool" where
  "is_linebreak c \<longleftrightarrow> (10 \<le> c \<and> c \<le> 13) \<or> (28 \<le> c \<and> c \<le> 30) \<or> c = 133 \<or> c = 8232 \<or> c = 8233"

fun split_lines :: "pystr \<Rightarrow> pystr \<Rightarrow> pystr list" where
  "split_lines cur [] = (if cur = [] then [] else [cur])"
| "split_lines cur [c] = (if is_linebreak c then [cur] else [cur @ [c]])"
| "split_lines cur (c # d # cs) =
     (if c = 13 \<and> d = 10 then cur # split_lines [] cs
      else if is_linebreak c then cur # split_lines [] (d # cs)
      else split_lines (cur @ [c]) (d # cs))"

definition splitlines :: "pystr \<Rightarrow> pystr list" where
  "splitlines s = split_lines [] s"

text \<open>\<^verbatim>\<open>sep.join(parts)\<close>.\<close>

fun join :: "pystr \<Rightarrow> pystr list \<Rightarrow> pystr" where
  "join sep [] = []"
| "join sep [x] = x"
| "join sep (x # y # ys) = x @ sep @ join sep (y # ys)"

section \<open>The balanced-brace scanner\<close>

text \<open>
  \<^verbatim>\<open>_cut_balanced_json(text, start)\<close> of \<^verbatim>\<open>openai_summarizer.py\<close>. The guard
  returns the empty string unless \<open>start\<close> is an index of \<open>text\<close> holding an opening
  brace; \<open>cut_loop\<close> is the \<^verbatim>\<open>for i in range(start, len(text))\<close> loop with its three
  variables \<open>depth\<close>, \<open>in_string\<close> and \<open>escape\<close>, and falling out of the loop returns
  the empty string. Every \<^verbatim>\<open>text[i]\<close> goes through \<open>getitem\<close>, so an index error
  would show as \<open>Inl\<close>.
\<close>

function cut_loop :: "pystr \<Rightarrow> nat \<Rightarrow> nat \<Rightarrow> int \<Rightarrow> bool \<Rightarrow> bool \<Rightarrow> py_error + pystr" where
  "cut_loop text start i depth in_string escape =
     (if i < length text then
        (case getitem text (int i) of
           Inl e \<Rightarrow> Inl e
         | Inr ch \<Rightarrow>
             if in_string then
               (if escape then cut_loop text start (Suc i) depth in_string False
                else if ch = 92 then cut_loop text start (Suc i) depth in_string True
                else if ch = 34 then cut_loop text start (Suc i) depth False escape
                else cut_loop text start (Suc i) depth in_string escape)
             else if ch = 34 then cut_loop text start (Suc i) depth True escape
             else if ch = 123 then cut_loop text start (Suc i) (depth + 1) in_string escape
             else if ch = 125 then
               (if depth - 1 = 0 then Inr (slice text start (i + 1))
                else cut_loop text start (Suc i) (depth - 1) in_string escape)
             else cut_loop text start (Suc i) depth in_string escape)
      else Inr [])"
  by pat_completeness auto
termination
  by (relation "measure (\<lambda>(text, start, i, depth, in_string, escape). length text - i)") auto

declare cut_loop.simps [simp del]

definition cut_balanced_json :: "pystr \<Rightarrow> int \<Rightarrow> py_error + pystr" where
  "cut_balanced_json text start =
     (if start < 0 \<or> start \<ge> int (length text) then Inr []
      else case getitem text start of
             Inl e \<Rightarrow> Inl e
           | Inr ch \<Rightarrow> if ch \<noteq> 123 then Inr []
                      else cut_loop text (nat start) (nat start) 0 False False)"

text \<open>
  The scanner's contract in the words of its specification, independent of the loop.
  \<open>quote_state w\<close> is where the end of \<open>w\<close> stands with respect to double-quoted
  strings (outside, inside, or inside right after a backslash); a brace counts only
  when the text before it ends outside a string, so \<open>nesting_depth w\<close> is the number of
  counted opening braces of \<open>w\<close> minus the number of counted closing ones; and
  \<open>balanced_prefix w\<close> is the shortest non-empty prefix of \<open>w\<close> whose depth is zero, or
  the empty string when no prefix has depth zero.
\<close>

datatype qstate = Outside | InString | Escaped

fun qstep :: "qstate \<Rightarrow> nat \<Rightarrow> qstate" where
  "qstep Outside c = (if c = 34 then InString else Outside)"
| "qstep InString c = (if c = 92 then Escaped else if c = 34 then Outside else InString)"
| "qstep Escaped c = InString"

definition quote_state :: "pystr \<Rightarrow> qstate" where
  "quote_state w = foldl qstep Outside w"

definition brace_value :: "qstate \<Rightarrow> nat \<Rightarrow> int" where
  "brace_value q c = (if q = Outside then (if c = 123 then 1 else if c = 125 then - 1 else 0) else 0)"

definition nesting_depth :: "pystr \<Rightarrow> int" where
  "nesting_depth w = (\<Sum>i<length w. brace_value (quote_state (take i w)) (w ! i))"

definition balanced_prefix :: "pystr \<Rightarrow> pystr" where
  "balanced_prefix w =
     (case List.find (\<lambda>n. nesting_depth (take n w) = 0) [1..<Suc (length w)] of
        None \<Rightarrow> []
      | Some n \<Rightarrow> take n w)"

definition cut_spec :: "pystr \<Rightarrow> int \<Rightarrow> pystr" where
  "cut_spec text start =
     (if 0 \<le> start \<and> start < int (length text) \<and> text ! nat start = 123
      then balanced_prefix (drop (nat start) text) else [])"


text \<open>The loop's two flags as a function of the quote state (used in the loop invariant).\<close>

definition ins :: "qstate \<Rightarrow> bool" where "ins q = (q \<noteq> Outside)"
definition esc :: "qstate \<Rightarrow> bool" where "esc q = (q = Escaped)"

section \<open>News items and their compaction\<close>

text \<open>
  A news item is the dictionary built by \<^verbatim>\<open>fetch_relevant_news\<close>; \<^verbatim>\<open>item.get(k)\<close> is
  the field, \<open>None\<close> when the key is missing or holds \<^verbatim>\<open>None\<close>. The publication time
  is a string (the feed) or an epoch number (the search).
\<close>

datatype stamp = Text pystr | Epoch int

record news_item =
  ticker :: "pystr option"
  title :: "pystr option"
  url :: "pystr option"
  source :: "pystr option"
  published_at :: "stamp option"

text \<open>The dictionary \<^verbatim>\<open>c\<close> that \<^verbatim>\<open>_compact_news\<close> builds for an accepted item.\<close>

record compact_entry =
  c_ticker :: pystr
  c_title :: pystr
  c_url :: pystr
  c_source :: pystr
  c_published_at :: stamp

text \<open>\<^verbatim>\<open>x or ''\<close>: the empty string for \<^verbatim>\<open>None\<close>, and also for the falsy number 0.\<close>

definition or_empty :: "pystr option \<Rightarrow> pystr" where
  "or_empty x = (case x of None \<Rightarrow> [] | Some s \<Rightarrow> s)"

definition stamp_or_empty :: "stamp option \<Rightarrow> stamp" where
  "stamp_or_empty x =
     (case x of None \<Rightarrow> Text []
      | Some (Text s) \<Rightarrow> Text s
      | Some (Epoch n) \<Rightarrow> if n = 0 then Text [] else Epoch n)"

text \<open>
  \<^verbatim>\<open>str.upper\<close> follows the Unicode case tables, which are not reproduced here: the
  functions below take it as the parameter \<open>upper\<close>, and everything proved about them
  holds for every such function. \<open>ascii_upper\<close> is \<^verbatim>\<open>str.upper\<close> on ASCII text and
  serves in the concrete examples.
\<close>

definition ascii_upper :: "pystr \<Rightarrow> pystr" where
  "ascii_upper s = map (\<lambda>c. if 97 \<le> c \<and> c \<le> 122 then c - 32 else c) s"

text \<open>Lines 188 and 193 to 203: the bucket key of an item and the entry built from it.\<close>

definition bucket :: "(pystr \<Rightarrow> pystr) \<Rightarrow> news_item \<Rightarrow> pystr" where
  "bucket upper item = upper (or_empty (ticker item))"

definition compact_of :: "(pystr \<Rightarrow> pystr) \<Rightarrow> news_item \<Rightarrow> compact_entry" where
  "compact_of upper item =
     (let t = bucket upper item;
          title0 = strip (or_empty (title item));
          title1 = (if length title0 > 180 then take 177 title0 @ lit ''...'' else title0);
          u = strip (or_empty (url item))
      in \<lparr>c_ticker = t, c_title = title1, c_url = u,
          c_source = or_empty (source item),
          c_published_at = stamp_or_empty (published_at item)\<rparr>)"

text \<open>
  The \<^verbatim>\<open>for item in news\<close> loop of \<^verbatim>\<open>_compact_news\<close>, with its three variables: the
  dictionary \<open>by_ticker\<close>, the list \<open>urls\<close> and the list \<open>compact\<close>. A bucket is entered
  with count 0 when first seen; an item whose bucket is full is skipped; the length
  test comes after the append and ends the loop.
\<close>

fun compact_loop ::
  "(pystr \<Rightarrow> pystr) \<Rightarrow> int \<Rightarrow> int \<Rightarrow> news_item list \<Rightarrow> (pystr \<rightharpoonup> nat) \<Rightarrow> pystr list
     \<Rightarrow> compact_entry list \<Rightarrow> compact_entry list \<times> pystr list" where
  "compact_loop upper max_items per_ticker [] by_ticker urls compacts = (compacts, urls)"
| "compact_loop upper max_items per_ticker (item # rest) by_ticker urls compacts =
     (let t = bucket upper item;
          n = (case by_ticker t of None \<Rightarrow> 0 | Some k \<Rightarrow> k)
      in if int n \<ge> per_ticker
         then compact_loop upper max_items per_ticker rest (by_ticker(t \<mapsto> n)) urls compacts
         else
           (let c = compact_of upper item;
                compacts' = compacts @ [c];
                urls' = (if c_url c \<noteq> [] then urls @ [c_url c] else urls)
            in if int (length compacts') \<ge> max_items then (compacts', urls')
               else compact_loop upper max_items per_ticker rest (by_ticker(t \<mapsto> Suc n))
                      urls' compacts'))"

text \<open>
  \<^verbatim>\<open>json.dumps(payload, ensure_ascii=False)\<close> on a list of such entries: the keys in
  insertion order, \<^verbatim>\<open>", "\<close> between items and \<^verbatim>\<open>": "\<close> after a key, strings escaped as
  the encoder does (the quote, the backslash, the five short escapes, and
  \<^verbatim>\<open>\u00XX\<close> for the other characters below 32), numbers in decimal. The encoder
  cannot fail on these values, so the \<^verbatim>\<open>except\<close> branch of \<^verbatim>\<open>size_of\<close> is never taken.
\<close>

definition hex_digit :: "nat \<Rightarrow> nat" where
  "hex_digit d = (if d < 10 then 48 + d else 87 + d)"

definition esc_char :: "nat \<Rightarrow> pystr" where
  "esc_char c =
     (if c = 34 then [92, 34] else if c = 92 then [92, 92]
      else if c = 10 then [92, 110] else if c = 13 then [92, 114]
      else if c = 9 then [92, 116] else if c = 8 then [92, 98]
      else if c = 12 then [92, 102]
      else if c < 32 then [92, 117, 48, 48, hex_digit (c div 16), hex_digit (c mod 16)]
      else [c])"

definition dumps_str :: "pystr \<Rightarrow> pystr" where
  "dumps_str s = [34] @ concat (map esc_char s) @ [34]"

function dec_nat :: "nat \<Rightarrow> pystr" where
  "dec_nat n = (if n < 10 then [48 + n] else dec_nat (n div 10) @ [48 + n mod 10])"
  by pat_completeness auto
termination
  by (relation "measure id") auto

declare dec_nat.simps [simp del]

definition dumps_int :: "int \<Rightarrow> pystr" where
  "dumps_int n = (if n < 0 then [45] @ dec_nat (nat (- n)) else dec_nat (nat n))"

definition dumps_stamp :: "stamp \<Rightarrow> pystr" where
  "dumps_stamp x = (case x of Text s \<Rightarrow> dumps_str s | Epoch n \<Rightarrow> dumps_int n)"

definition dumps_key :: "string \<Rightarrow> pystr" where
  "dumps_key k = [34] @ lit k @ [34] @ lit '': ''"

definition dumps_entry :: "compact_entry \<Rightarrow> pystr" where
  "dumps_entry c =
     lit ''{'' @ dumps_key ''ticker'' @ dumps_str (c_ticker c)
       @ lit '', '' @ dumps_key ''title'' @ dumps_str (c_title c)
       @ lit '', '' @ dumps_key ''url'' @ dumps_str (c_url c)
       @ lit '', '' @ dumps_key ''source'' @ dumps_str (c_source c)
       @ lit '', '' @ dumps_key ''published_at'' @ dumps_stamp (c_published_at c)
       @ lit ''}''"

definition json_dumps :: "compact_entry list \<Rightarrow> pystr" where
  "json_dumps payload = lit ''['' @ join (lit '', '') (map dumps_entry payload) @ lit '']''"

definition size_of :: "compact_entry list \<Rightarrow> int" where
  "size_of payload = int (length (json_dumps payload))"

text \<open>\<^verbatim>\<open>while compact and size_of(compact) > max_chars: compact.pop()\<close>.\<close>

function trim :: "compact_entry list \<Rightarrow> int \<Rightarrow> compact_entry list" where
  "trim compacts max_chars =
     (if compacts \<noteq> [] \<and> size_of compacts > max_chars then trim (butlast compacts) max_chars
      else compacts)"
  by pat_completeness auto
termination
  by (relation "measure (\<lambda>(compacts, max_chars). length compacts)") auto

declare trim.simps [simp del]

text \<open>The last loop: \<^verbatim>\<open>seen\<close> is the set, \<^verbatim>\<open>dedup_urls\<close> the list built.\<close>

fun dedup_loop :: "pystr list \<Rightarrow> pystr set \<Rightarrow> pystr list \<Rightarrow> pystr list" where
  "dedup_loop [] seen dedup_urls = dedup_urls"
| "dedup_loop (u # us) seen dedup_urls =
     (if u \<noteq> [] \<and> u \<notin> seen then dedup_loop us (insert u seen) (dedup_urls @ [u])
      else dedup_loop us seen dedup_urls)"

definition compact_news ::
  "(pystr \<Rightarrow> pystr) \<Rightarrow> news_item list \<Rightarrow> int \<Rightarrow> int \<Rightarrow> int \<Rightarrow> compact_entry list \<times> pystr list" where
  "compact_news upper news max_items per_ticker max_chars =
     (if news = [] then ([], [])
      else
        (let (compacts, urls) = compact_loop upper max_items per_ticker news Map.empty [] []
         in (trim compacts max_chars, dedup_loop urls {} [])))"


text \<open>
  The selection in the words of the specification. An item is eligible when fewer than
  \<open>per_ticker\<close> of the items before it fall in its bucket; the accepted items are the
  first \<open>max_items\<close> eligible items, in input order (the first eligible item is taken
  whatever \<open>max_items\<close> is, because the loop tests the length after the append);
  \<open>first_seen\<close> keeps the first occurrence of every element of a list, in order.
\<close>

definition eligible :: "(pystr \<Rightarrow> pystr) \<Rightarrow> int \<Rightarrow> news_item list \<Rightarrow> nat \<Rightarrow> bool" where
  "eligible upper per_ticker news i \<longleftrightarrow>
     int (length (filter (\<lambda>x. bucket upper x = bucket upper (news ! i)) (take i news))) < per_ticker"

definition eligible_items :: "(pystr \<Rightarrow> pystr) \<Rightarrow> int \<Rightarrow> news_item list \<Rightarrow> news_item list" where
  "eligible_items upper per_ticker news =
     map (\<lambda>i. news ! i) (filter (eligible upper per_ticker news) [0..<length news])"

definition accepted :: "(pystr \<Rightarrow> pystr) \<Rightarrow> int \<Rightarrow> int \<Rightarrow> news_item list \<Rightarrow> news_item list" where
  "accepted upper max_items per_ticker news =
     take (max 1 (nat max_items)) (eligible_items upper per_ticker news)"

definition first_seen :: "'a list \<Rightarrow> 'a list" where
  "first_seen xs = rev (remdups (rev xs))"

text \<open>
  Used in the proofs: the loop's selection as a function of the counts so far, and the
  number of items of a bucket among those seen.
\<close>

fun accept :: "(pystr \<Rightarrow> pystr) \<Rightarrow> int \<Rightarrow> (pystr \<Rightarrow> nat) \<Rightarrow> news_item list \<Rightarrow> news_item list" where
  "accept upper per_ticker cnt [] = []"
| "accept upper per_ticker cnt (x # xs) =
     (if int (cnt (bucket upper x)) \<ge> per_ticker then accept upper per_ticker cnt xs
      else x # accept upper per_ticker (cnt(bucket upper x := Suc (cnt (bucket upper x)))) xs)"

definition counts :: "(pystr \<rightharpoonup> nat) \<Rightarrow> pystr \<Rightarrow> nat" where
  "counts by_ticker b = (case by_ticker b of None \<Rightarrow> 0 | Some k \<Rightarrow> k)"

definition nonempty_urls :: "(pystr \<Rightarrow> pystr) \<Rightarrow> news_item list \<Rightarrow> pystr list" where
  "nonempty_urls upper xs = filter (\<lambda>u. u \<noteq> []) (map (\<lambda>x. c_url (compact_of upper x)) xs)"

definition seen_count :: "(pystr \<Rightarrow> pystr) \<Rightarrow> news_item list \<Rightarrow> pystr \<Rightarrow> nat" where
  "seen_count upper seen b = length (filter (\<lambda>y. bucket upper y = b) seen)"

text \<open>Items and entries of the concrete examples.\<close>

definition ex_item :: "string \<Rightarrow> string \<Rightarrow> news_item" where
  "ex_item t u = \<lparr>ticker = Some (lit t), title = Some (lit ''Title''), url = Some (lit u),
                  source = Some (lit ''Yahoo''), published_at = Some (Epoch 1700000000)\<rparr>"

definition ex_entry :: "string \<Rightarrow> string \<Rightarrow> compact_entry" where
  "ex_entry t u = \<lparr>c_ticker = lit t, c_title = lit ''Title'', c_url = lit u,
                   c_source = lit ''Yahoo'', c_published_at = Epoch 1700000000\<rparr>"

definition ex_no_ticker :: "string \<Rightarrow> news_item" where
  "ex_no_ticker u = (ex_item '''' u)\<lparr>ticker := None\<rparr>"

section \<open>Aggregating news\<close>

text \<open>
  \<^verbatim>\<open>fetch_relevant_news(tickers)\<close> of \<^verbatim>\<open>news_crawler.py\<close>. For each ticker the loop
  appends to \<^verbatim>\<open>items\<close> what the feed gave and then what the search gave; a call that
  fails contributes nothing. The two upstream calls are the parameters \<open>rss\<close> and
  \<open>search\<close>, each giving the items appended for a ticker, so \<open>collect\<close> is the list
  \<^verbatim>\<open>items\<close> before deduplication. \<open>dedup_items\<close> is the loop of lines 68 to 74 with
  its set \<^verbatim>\<open>seen\<close> and its list \<^verbatim>\<open>deduped\<close>; \<^verbatim>\<open>if u and u not in seen\<close> skips an item
  whose URL is missing or empty. Unlike the compaction, this loop does not strip the
  URL.
\<close>

definition collect ::
  "(pystr \<Rightarrow> news_item list) \<Rightarrow> (pystr \<Rightarrow> news_item list) \<Rightarrow> pystr list \<Rightarrow> news_item list" where
  "collect rss search tickers = concat (map (\<lambda>t. rss t @ search t) tickers)"

fun dedup_items :: "news_item list \<Rightarrow> pystr set \<Rightarrow> news_item list \<Rightarrow> news_item list" where
  "dedup_items [] seen deduped = deduped"
| "dedup_items (it # items) seen deduped =
     (case url it of
        None \<Rightarrow> dedup_items items seen deduped
      | Some u \<Rightarrow>
          if u \<noteq> [] \<and> u \<notin> seen then dedup_items items (insert u seen) (deduped @ [it])
          else dedup_items items seen deduped)"

definition fetch_relevant_news ::
  "(pystr \<Rightarrow> news_item list) \<Rightarrow> (pystr \<Rightarrow> news_item list) \<Rightarrow> pystr list \<Rightarrow> news_item list" where
  "fetch_relevant_news rss search tickers = dedup_items (collect rss search tickers) {} []"

text \<open>An item has a URL when the field holds a non-empty string.\<close>

definition has_url :: "news_item \<Rightarrow> bool" where
  "has_url it = (case url it of None \<Rightarrow> False | Some u \<Rightarrow> u \<noteq> [])"

section \<open>Daily indicators\<close>

text \<open>
  \<^verbatim>\<open>get_daily_indicators\<close> of \<^verbatim>\<open>yfinance_utils.py\<close>, for one ticker. \<open>hist\<close> is the
  column of closing prices the provider returned (oldest first). Prices are modelled as
  real numbers, so the rounding of floating-point arithmetic and the value NaN are
  outside the model; what is modelled is which closes are present, the truth test
  \<^verbatim>\<open>last_close and prev_close\<close> (\<^verbatim>\<open>None\<close> and \<^verbatim>\<open>0.0\<close> are false), and the division, which
  raises \<^verbatim>\<open>ZeroDivisionError\<close> on a zero divisor. Any exception makes the record
  \<^verbatim>\<open>{'error': 'fetch_failed'}\<close>. The descriptive fields taken from \<^verbatim>\<open>info\<close> are left
  out.
\<close>

definition last_close :: "real list \<Rightarrow> real option" where
  "last_close hist = (if hist \<noteq> [] then Some (last hist) else None)"

definition prev_close :: "real list \<Rightarrow> real option" where
  "prev_close hist = (if length hist \<ge> 2 then Some (hist ! (length hist - 2)) else None)"

definition truthy :: "real option \<Rightarrow> bool" where
  "truthy x = (case x of None \<Rightarrow> False | Some v \<Rightarrow> v \<noteq> 0)"

definition truediv :: "real \<Rightarrow> real \<Rightarrow> py_error + real" where
  "truediv a b = (if b = 0 then Inl ZeroDivisionError else Inr (a / b))"

definition change_pct :: "real option \<Rightarrow> real option \<Rightarrow> py_error + real option" where
  "change_pct l p =
     (if truthy l \<and> truthy p then
        (case (l, p) of
           (Some lv, Some pv) \<Rightarrow>
             (case truediv (lv - pv) pv of Inl e \<Rightarrow> Inl e | Inr q \<Rightarrow> Inr (Some (q * 100)))
         | _ \<Rightarrow> Inl TypeError)
      else Inr None)"

record indicators =
  i_price :: "real option"
  i_prev_close :: "real option"
  i_change_pct :: "real option"

datatype indicator_record = Indicators indicators | Fetch_failed

definition indicator_for :: "py_error + real list \<Rightarrow> indicator_record" where
  "indicator_for fetched =
     (case fetched of
        Inl e \<Rightarrow> Fetch_failed
      | Inr hist \<Rightarrow>
          (case change_pct (last_close hist) (prev_close hist) of
             Inl e \<Rightarrow> Fetch_failed
           | Inr c \<Rightarrow> Indicators \<lparr>i_price = last_close hist, i_prev_close = prev_close hist,
                                   i_change_pct = c\<rparr>))"

definition get_daily_indicators ::
  "(pystr \<Rightarrow> py_error + real list) \<Rightarrow> pystr list \<Rightarrow> (pystr \<times> indicator_record) list" where
  "get_daily_indicators history tickers = map (\<lambda>t. (t, indicator_for (history t))) tickers"

section \<open>Parsing the model's response\<close>

subsection \<open>Code fences\<close>

text \<open>\<^verbatim>\<open>_strip_code_fences(s)\<close>: the fence is three backticks (code point 96).\<close>

definition strip_code_fences :: "pystr \<Rightarrow> pystr" where
  "strip_code_fences s0 =
     (let s = strip s0 in
      if prefix [96, 96, 96] s \<and> suffix [96, 96, 96] s then
        (let lines = splitlines s in
         if length lines \<ge> 2 then join [10] (butlast (tl lines)) else s)
      else s)"

subsection \<open>The two patterns\<close>

text \<open>
  The patterns are compiled with \<^verbatim>\<open>re.IGNORECASE\<close>: a lower-case ASCII letter of the
  pattern matches itself, its capital, and the few other characters whose lower case it
  is or that the \<^verbatim>\<open>re\<close> module treats as its equals (the long s for \<^verbatim>\<open>s\<close>, the dotted
  capital and the dotless small i for \<^verbatim>\<open>i\<close>, the Kelvin sign for \<^verbatim>\<open>k\<close>). Any other
  pattern character matches itself.
\<close>

definition ci_variants :: "nat \<Rightarrow> nat list" where
  "ci_variants p =
     (if p = 115 then [115, 83, 383]
      else if p = 105 then [105, 73, 304, 305]
      else if p = 107 then [107, 75, 8490]
      else if 97 \<le> p \<and> p \<le> 122 then [p, p - 32]
      else [p])"

definition match_ci :: "pystr \<Rightarrow> pystr \<Rightarrow> nat \<Rightarrow> bool" where
  "match_ci pat text i \<longleftrightarrow>
     list_all2 (\<lambda>p c. c \<in> set (ci_variants p)) pat (take (length pat) (drop i text))"

text \<open>The end of the longest run of whitespace that starts at \<open>i\<close> (a greedy \<^verbatim>\<open>\s*\<close>).\<close>

definition skip_space :: "pystr \<Rightarrow> nat \<Rightarrow> nat" where
  "skip_space text i = i + length (takeWhile isspace (drop i text))"

text \<open>
  The marker pattern \<^verbatim>\<open>^\s*(?:-->\s*)?json\s*:\s*$\<close> with \<^verbatim>\<open>re.MULTILINE\<close>. \<^verbatim>\<open>^\<close> holds
  at the start of the text and after every line feed, \<^verbatim>\<open>$\<close> at the end of the text
  and before every line feed. What follows each \<^verbatim>\<open>\s*\<close> but the last is not whitespace,
  so those runs are taken whole and backtracking changes nothing; the last run is
  greedy and gives back characters until \<^verbatim>\<open>$\<close> holds: the match ends at the end of the
  text if the run reaches it, else at the last line feed of the run, and there is no
  match if the run holds none. \<open>marker_at text i\<close> is the end of the match that starts at
  \<open>i\<close>; \<open>marker_search\<close> is \<^verbatim>\<open>pattern.search(text)\<close>: the leftmost start with a match, as
  \<^verbatim>\<open>(match.start(), match.end())\<close>.
\<close>

definition line_start :: "pystr \<Rightarrow> nat \<Rightarrow> bool" where
  "line_start text i \<longleftrightarrow> i = 0 \<or> (i \<le> length text \<and> text ! (i - 1) = 10)"

definition last_newline :: "pystr \<Rightarrow> nat \<Rightarrow> nat \<Rightarrow> nat option" where
  "last_newline text a b = List.find (\<lambda>p. text ! p = 10) (rev [a..<b])"

definition marker_at :: "pystr \<Rightarrow> nat \<Rightarrow> nat option" where
  "marker_at text i =
     (let j = skip_space text i;
          k = (if prefix (lit ''-->'') (drop j text) then skip_space text (j + 3) else j)
      in if match_ci (lit ''json'') text k then
           (let c = skip_space text (k + 4) in
            if prefix [58] (drop c text) then
              (let q = skip_space text (c + 1) in
               if q = length text then Some q else last_newline text (c + 1) q)
            else None)
         else None)"

definition marker_search :: "pystr \<Rightarrow> (nat \<times> nat) option" where
  "marker_search text =
     (case List.find (\<lambda>i. line_start text i \<and> marker_at text i \<noteq> None) [0..<Suc (length text)] of
        None \<Rightarrow> None
      | Some i \<Rightarrow> (case marker_at text i of None \<Rightarrow> None | Some e \<Rightarrow> Some (i, e)))"

text \<open>
  The inline pattern \<^verbatim>\<open>\{\s*"signals"\s*:\s*\<close>. A match holds one opening brace, its
  first character, so matches cannot overlap and \<^verbatim>\<open>finditer\<close> finds every position at
  which the pattern matches; \<open>last_signals\<close> is \<^verbatim>\<open>matches[-1].start()\<close>.
\<close>

definition signals_at :: "pystr \<Rightarrow> nat \<Rightarrow> bool" where
  "signals_at text p \<longleftrightarrow>
     prefix [123] (drop p text) \<and>
     (let j = skip_space text (p + 1) in
      prefix [34] (drop j text) \<and> match_ci (lit ''signals'') text (j + 1) \<and>
      prefix [34] (drop (j + 8) text) \<and> prefix [58] (drop (skip_space text (j + 9)) text))"

definition last_signals :: "pystr \<Rightarrow> nat option" where
  "last_signals text = List.find (signals_at text) (rev [0..<length text])"

subsection \<open>JSON values\<close>

text \<open>
  What \<^verbatim>\<open>json.loads\<close> returns: a dictionary keeps its keys in insertion order. The
  decoder is Python's, not the repository's: the parser takes it as the parameter
  \<open>loads\<close>, with \<open>None\<close> for any exception it raises (the calls are inside
  \<^verbatim>\<open>try ... except Exception: pass\<close>), and what is proved holds for every decoder.
\<close>

datatype json =
  JNull | JBool bool | JInt int | JFloat real | JStr pystr | JList "json list"
  | JDict "(pystr \<times> json) list"

type_synonym pydict = "(pystr \<times> json) list"

definition has_key :: "pydict \<Rightarrow> pystr \<Rightarrow> bool" where
  "has_key d k \<longleftrightarrow> map_of d k \<noteq> None"

definition empty_signals :: pydict where
  "empty_signals = [(lit ''signals'', JList [])]"

text \<open>
  The body of each \<^verbatim>\<open>try\<close>: a dictionary with the key \<^verbatim>\<open>signals\<close> is returned as it
  is, a list is wrapped, and anything else (or an exception) returns nothing, so that
  control falls out of the \<^verbatim>\<open>try\<close>.
\<close>

definition validated :: "json option \<Rightarrow> pydict option" where
  "validated parsed =
     (case parsed of
        Some (JDict d) \<Rightarrow> if has_key d (lit ''signals'') then Some d else None
      | Some (JList xs) \<Rightarrow> Some [(lit ''signals'', JList xs)]
      | _ \<Rightarrow> None)"

subsection \<open>The parser\<close>

text \<open>
  \<^verbatim>\<open>_extract_markdown_and_json(content)\<close>. \<open>content\<close> is a string or \<^verbatim>\<open>None\<close>
  (\<^verbatim>\<open>content or ''\<close>). \<open>fallback_a\<close> and \<open>fallback_b\<close> are the two blocks of the branch
  without a marker: each returns a result or falls through. The scanner is called
  outside the \<^verbatim>\<open>try\<close>, so an exception of it would escape: it is kept as \<open>Inl\<close>.
\<close>

definition fallback_a :: "(pystr \<Rightarrow> json option) \<Rightarrow> pystr \<Rightarrow> (pystr \<times> pydict) option" where
  "fallback_a loads text =
     (case find_sub ([10] @ lit ''JSON:'') text of
        None \<Rightarrow> None
      | Some idx \<Rightarrow>
          (let split_at = idx + 1;
               md = strip (take split_at text);
               json_part = strip (drop (split_at + length (lit ''JSON:'')) text);
               json_part = strip (strip_code_fences json_part)
           in case validated (loads json_part) of
                None \<Rightarrow> None
              | Some d \<Rightarrow> Some (md, d)))"

definition fallback_b ::
  "(pystr \<Rightarrow> json option) \<Rightarrow> pystr \<Rightarrow> py_error + (pystr \<times> pydict) option" where
  "fallback_b loads text =
     (case last_signals text of
        None \<Rightarrow> Inr None
      | Some start \<Rightarrow>
          (case cut_balanced_json text (int start) of
             Inl e \<Rightarrow> Inl e
           | Inr candidate \<Rightarrow>
               if candidate = [] then Inr None
               else (case validated (loads candidate) of
                       None \<Rightarrow> Inr None
                     | Some d \<Rightarrow> Inr (Some (strip (take start text), d)))))"

definition extract_markdown_and_json ::
  "(pystr \<Rightarrow> json option) \<Rightarrow> pystr option \<Rightarrow> py_error + (pystr \<times> pydict)" where
  "extract_markdown_and_json loads content =
     (let text = or_empty content in
      case marker_search text of
        None \<Rightarrow>
          (case fallback_a loads text of
             Some r \<Rightarrow> Inr r
           | None \<Rightarrow>
               (case fallback_b loads text of
                  Inl e \<Rightarrow> Inl e
                | Inr (Some r) \<Rightarrow> Inr r
                | Inr None \<Rightarrow> Inr (strip text, empty_signals)))
      | Some (split_at, e) \<Rightarrow>
          (let md = strip (take split_at text);
               json_part = strip (drop e text);
               json_part = strip (strip_code_fences json_part)
           in case validated (loads json_part) of
                Some d \<Rightarrow> Inr (md, d)
              | None \<Rightarrow> Inr (md, empty_signals)))"

text \<open>Responses of the concrete examples.\<close>

definition ex_bad_json :: pystr where
  "ex_bad_json = lit ''Report'' @ [10] @ lit ''-->Json:'' @ [10] @ lit ''{oops''"

definition ex_fenced_bad_json :: pystr where
  "ex_fenced_bad_json =
     lit ''Summary'' @ [10] @ lit ''JSON:'' @ [10] @ [96, 96, 96] @ lit ''json'' @ [10]
       @ lit ''[1,]'' @ [10] @ [96, 96, 96]"

definition ex_not_a_mapping :: pystr where
  "ex_not_a_mapping = lit ''Intro'' @ [10] @ lit ''json :'' @ [10] @ lit ''42''"

definition ex_plain :: pystr where
  "ex_plain = lit '' Nothing to parse here. ''"

definition ex_signal_json :: pystr where
  "ex_signal_json =
     lit ''{'' @ [34] @ lit ''signals'' @ [34] @ lit '':[{'' @ [34] @ lit ''ticker'' @ [34] @ lit '':''
       @ [34] @ lit ''AAPL'' @ [34] @ lit ''}]}''"

definition ex_signal_dict :: pydict where
  "ex_signal_dict = [(lit ''signals'', JList [JDict [(lit ''ticker'', JStr (lit ''AAPL''))]])]"

definition ex_round_trip :: pystr where
  "ex_round_trip = lit ''Text.'' @ [10] @ lit ''-->Json:'' @ [10] @ ex_signal_json"

definition ex_inline :: pystr where
  "ex_inline = lit ''Note '' @ ex_signal_json @ lit '' end''"

subsection \<open>A decoder for the examples\<close>

text \<open>
  Concrete examples need a concrete decoder. \<open>json_loads\<close> follows \<^verbatim>\<open>json.loads\<close> on a
  string: optional whitespace, one value, optional whitespace, nothing else; objects
  (a repeated key keeps its place and takes the last value), arrays, strings with their
  escapes (a control character inside a string is an error), numbers (an integer unless
  a fraction or an exponent follows), and the literals. It leaves out what no example
  uses: floats are exact rather than rounded, the three non-finite literals are
  rejected, a surrogate pair written as two \<^verbatim>\<open>\u\<close> escapes is not combined, and the
  recursion limit is the length of the text. \<open>None\<close> stands for the exception.
\<close>

definition json_ws :: "nat \<Rightarrow> bool" where
  "json_ws c \<longleftrightarrow> c = 32 \<or> c = 9 \<or> c = 10 \<or> c = 13"

definition skip_ws :: "pystr \<Rightarrow> pystr" where
  "skip_ws s = dropWhile json_ws s"

definition is_digit :: "nat \<Rightarrow> bool" where
  "is_digit c \<longleftrightarrow> 48 \<le> c \<and> c \<le> 57"

definition hex_value :: "nat \<Rightarrow> nat option" where
  "hex_value c =
     (if 48 \<le> c \<and> c \<le> 57 then Some (c - 48)
      else if 97 \<le> c \<and> c \<le> 102 then Some (c - 87)
      else if 65 \<le> c \<and> c \<le> 70 then Some (c - 55)
      else None)"

definition hex4 :: "pystr \<Rightarrow> nat option" where
  "hex4 s =
     (case map hex_value (take 4 s) of
        [Some a, Some b, Some c, Some d] \<Rightarrow> Some (((a * 16 + b) * 16 + c) * 16 + d)
      | _ \<Rightarrow> None)"

definition unescape :: "nat \<Rightarrow> nat option" where
  "unescape e =
     (if e = 34 \<or> e = 92 \<or> e = 47 then Some e
      else if e = 98 then Some 8 else if e = 102 then Some 12
      else if e = 110 then Some 10 else if e = 114 then Some 13
      else if e = 116 then Some 9 else None)"

fun scan_string :: "pystr \<Rightarrow> pystr \<Rightarrow> (pystr \<times> pystr) option" where
  "scan_string acc [] = None"
| "scan_string acc [c] = (if c = 34 then Some (acc, []) else None)"
| "scan_string acc (c # e # cs) =
     (if c = 34 then Some (acc, e # cs)
      else if c = 92 then
        (if e = 117 then
           (case hex4 cs of None \<Rightarrow> None | Some u \<Rightarrow> scan_string (acc @ [u]) (drop 4 cs))
         else (case unescape e of None \<Rightarrow> None | Some u \<Rightarrow> scan_string (acc @ [u]) cs))
      else if c < 32 then None
      else scan_string (acc @ [c]) (e # cs))"

definition digits_value :: "pystr \<Rightarrow> int" where
  "digits_value ds = foldl (\<lambda>a d. a * 10 + int (d - 48)) 0 ds"

text \<open>
  A number at the head of \<open>s\<close>: the sign, the integer part (a lone zero, or digits not
  starting with zero), then the fraction and the exponent if they are well formed.
\<close>

definition scan_number :: "pystr \<Rightarrow> (json \<times> pystr) option" where
  "scan_number s =
     (let neg = prefix [45] s;
          s1 = (if neg then tl s else s);
          ip = (if prefix [48] s1 then [48] else takeWhile is_digit s1);
          s2 = drop (length ip) s1;
          fp = (if prefix [46] s2 \<and> takeWhile is_digit (tl s2) \<noteq> [] then takeWhile is_digit (tl s2) else []);
          s3 = (if fp = [] then s2 else drop (Suc (length fp)) s2);
          has_e = (prefix [101] s3 \<or> prefix [69] s3);
          s4 = (if has_e then tl s3 else s3);
          eneg = prefix [45] s4;
          s5 = (if has_e \<and> (eneg \<or> prefix [43] s4) then tl s4 else s4);
          ep = (if has_e then takeWhile is_digit s5 else []);
          s6 = (if ep = [] then s3 else drop (length ep) s5);
          m = digits_value (ip @ fp);
          sgn = (if neg then - 1 else 1)
      in if ip = [] then None
         else if fp = [] \<and> ep = [] then Some (JInt (sgn * m), s6)
         else Some (JFloat (real_of_int (sgn * m) / 10 ^ length fp
                      * (if eneg then 1 / 10 ^ nat (digits_value ep) else 10 ^ nat (digits_value ep))), s6))"

text \<open>\<^verbatim>\<open>d[k] = v\<close> on a dictionary kept as a list of pairs.\<close>

fun dict_set :: "pydict \<Rightarrow> pystr \<Rightarrow> json \<Rightarrow> pydict" where
  "dict_set [] k v = [(k, v)]"
| "dict_set ((k', v') # d) k v = (if k' = k then (k, v) # d else (k', v') # dict_set d k v)"

fun parse_value :: "nat \<Rightarrow> pystr \<Rightarrow> (json \<times> pystr) option"
  and parse_elements :: "nat \<Rightarrow> json list \<Rightarrow> pystr \<Rightarrow> (json \<times> pystr) option"
  and parse_members :: "nat \<Rightarrow> pydict \<Rightarrow> pystr \<Rightarrow> (json \<times> pystr) option" where
  "parse_value 0 s = None"
| "parse_value (Suc f) s =
     (if prefix [34] s then
        (case scan_string [] (tl s) of None \<Rightarrow> None | Some (str, r) \<Rightarrow> Some (JStr str, r))
      else if prefix [123] s then
        (let r = skip_ws (tl s) in
         if prefix [125] r then Some (JDict [], tl r) else parse_members f [] r)
      else if prefix [91] s then
        (let r = skip_ws (tl s) in
         if prefix [93] r then Some (JList [], tl r) else parse_elements f [] r)
      else if prefix (lit ''null'') s then Some (JNull, drop 4 s)
      else if prefix (lit ''true'') s then Some (JBool True, drop 4 s)
      else if prefix (lit ''false'') s then Some (JBool False, drop 5 s)
      else scan_number s)"
| "parse_elements 0 acc s = None"
| "parse_elements (Suc f) acc s =
     (case parse_value f s of
        None \<Rightarrow> None
      | Some (v, r) \<Rightarrow>
          (let r1 = skip_ws r in
           if prefix [44] r1 then parse_elements f (acc @ [v]) (skip_ws (tl r1))
           else if prefix [93] r1 then Some (JList (acc @ [v]), tl r1)
           else None))"
| "parse_members 0 acc s = None"
| "parse_members (Suc f) acc s =
     (if prefix [34] s then
        (case scan_string [] (tl s) of
           None \<Rightarrow> None
         | Some (k, r) \<Rightarrow>
             (let r1 = skip_ws r in
              if prefix [58] r1 then
                (case parse_value f (skip_ws (tl r1)) of
                   None \<Rightarrow> None
                 | Some (v, r2) \<Rightarrow>
                     (let r3 = skip_ws r2 in
                      if prefix [44] r3 then parse_members f (dict_set acc k v) (skip_ws (tl r3))
                      else if prefix [125] r3 then Some (JDict (dict_set acc k v), tl r3)
                      else None))
              else None))
      else None)"

definition json_loads :: "pystr \<Rightarrow> json option" where
  "json_loads s =
     (if prefix [65279] s then None
      else (case parse_value (Suc (length s)) (skip_ws s) of
              None \<Rightarrow> None
            | Some (v, r) \<Rightarrow> if skip_ws r = [] then Some v else None))"

section \<open>The model call and the run\<close>

subsection \<open>The call\<close>











subsection \<open>The run\<close>


















section \<open>Correctness of the balanced-brace scanner\<close>

lemma quote_state_snoc: "quote_state (w @ [c]) = qstep (quote_state w) c"
  by (simp add: quote_state_def)

lemma nesting_depth_snoc:
  "nesting_depth (w @ [c]) = nesting_depth w + brace_value (quote_state w) c"
  by (simp add: nesting_depth_def nth_append)

lemma take_Suc_snoc: "k < length w \<Longrightarrow> take (Suc k) w = take k w @ [w ! k]"
  by (simp add: take_Suc_conv_app_nth)


lemma find_upt_least:
  assumes "1 \<le> n" "n \<le> m" "P n" "\<forall>j. 1 \<le> j \<and> j < n \<longrightarrow> \<not> P j"
  shows "List.find P [1..<Suc m] = Some n"
proof -
  have "\<exists>i<length [1..<Suc m]. P ([1..<Suc m] ! i) \<and> n = [1..<Suc m] ! i \<and> (\<forall>j<i. \<not> P ([1..<Suc m] ! j))"
  proof (intro exI[of _ "n - 1"] conjI allI impI)
    show "n - 1 < length [1..<Suc m]" using assms by (simp del: upt_Suc)
    have idx: "[1..<Suc m] ! (n - 1) = n" using assms by (simp add: nth_upt del: upt_Suc)
    show "P ([1..<Suc m] ! (n - 1))" using idx assms by simp
    show "n = [1..<Suc m] ! (n - 1)" using idx by simp
    fix j assume "j < n - 1"
    then have "[1..<Suc m] ! j = Suc j" "Suc j < n" using assms by (simp_all add: nth_upt del: upt_Suc)
    then show "\<not> P ([1..<Suc m] ! j)" using assms by simp
  qed
  then show ?thesis by (simp only: find_Some_iff)
qed

lemma find_upt_none:
  assumes "\<forall>j. 1 \<le> j \<and> j \<le> m \<longrightarrow> \<not> P j"
  shows "List.find P [1..<Suc m] = None"
  using assms by (auto simp: find_None_iff)

lemma cut_loop_inv:
  assumes s: "s \<le> length text" and w: "w = drop s text" and ne: "w \<noteq> []" and h: "w ! 0 = 123"
  shows "k \<le> length w \<Longrightarrow> (\<forall>n. 1 \<le> n \<and> n \<le> k \<longrightarrow> 1 \<le> nesting_depth (take n w))
     \<Longrightarrow> cut_loop text s (s + k) (nesting_depth (take k w))
           (ins (quote_state (take k w))) (esc (quote_state (take k w)))
         = Inr (balanced_prefix w)"
proof (induction "length w - k" arbitrary: k)
  case 0
  then have k: "k = length w" by simp
  have "List.find (\<lambda>n. nesting_depth (take n w) = 0) [1..<Suc (length w)] = None"
    using "0.prems"(2) k by (intro find_upt_none) fastforce
  then have "balanced_prefix w = []" by (simp add: balanced_prefix_def)
  moreover have "\<not> s + k < length text" using k w by simp
  ultimately show ?case by (subst cut_loop.simps) simp
next
  case (Suc m)
  then have klt: "k < length w" by simp
  then have ilt: "s + k < length text" using w by simp
  define d where "d = nesting_depth (take k w)"
  define q where "q = quote_state (take k w)"
  define ch where "ch = w ! k"
  have ch: "text ! (s + k) = ch" using w klt s by (simp add: ch_def)
  have gi: "getitem text (int (s + k)) = Inr ch"
    using ilt ch by (simp add: getitem_def Let_def del: of_nat_add)
  have tk: "take (Suc k) w = take k w @ [ch]" using klt by (simp add: take_Suc_snoc ch_def)
  have nd: "nesting_depth (take (Suc k) w) = d + brace_value q ch"
    by (simp add: tk nesting_depth_snoc d_def q_def)
  have qs: "quote_state (take (Suc k) w) = qstep q ch"
    by (simp add: tk quote_state_snoc q_def)
  have d0: "k = 0 \<Longrightarrow> d = 0 \<and> q = Outside \<and> ch = 123"
    using h by (simp add: d_def q_def ch_def nesting_depth_def quote_state_def)
  have d1: "0 < k \<Longrightarrow> 1 \<le> d" using Suc.prems(2) by (simp add: d_def)
  have IH: "(\<forall>n. 1 \<le> n \<and> n \<le> Suc k \<longrightarrow> 1 \<le> nesting_depth (take n w)) \<Longrightarrow>
        cut_loop text s (Suc (s + k)) (d + brace_value q ch) (ins (qstep q ch)) (esc (qstep q ch))
          = Inr (balanced_prefix w)"
    using Suc.hyps(1)[of "Suc k"] Suc.hyps(2) klt by (simp add: nd qs)
  have ext: "1 \<le> d + brace_value q ch \<Longrightarrow>
        (\<forall>n. 1 \<le> n \<and> n \<le> Suc k \<longrightarrow> 1 \<le> nesting_depth (take n w))"
    using Suc.prems(2) nd by (auto simp: le_Suc_eq)
  show ?case
  proof (cases "q = Outside \<and> ch = 125 \<and> d - 1 = 0")
    case True
    have "nesting_depth (take (Suc k) w) = 0" using True nd by (simp add: brace_value_def)
    moreover have "\<forall>j. 1 \<le> j \<and> j < Suc k \<longrightarrow> \<not> nesting_depth (take j w) = 0"
      using Suc.prems(2) by fastforce
    ultimately have "List.find (\<lambda>n. nesting_depth (take n w) = 0) [1..<Suc (length w)] = Some (Suc k)"
      using klt by (intro find_upt_least) simp_all
    then have bp: "balanced_prefix w = take (Suc k) w" by (simp add: balanced_prefix_def)
    have "slice text s (s + k + 1) = take (Suc k) w" by (simp add: slice_def w)
    then show ?thesis
      using True gi ilt bp
      by (subst cut_loop.simps) (simp add: d_def[symmetric] q_def[symmetric] ins_def esc_def)
  next
    case False
    have pos: "1 \<le> d + brace_value q ch"
      using False d0 d1 by (cases "k = 0") (auto simp: brace_value_def)
    note rec = IH[OF ext[OF pos]]
    show ?thesis
      using False gi ilt rec
      by (subst cut_loop.simps, cases q)
         (auto simp: d_def[symmetric] q_def[symmetric] ins_def esc_def brace_value_def)
  qed
qed

lemma cut_balanced_json_eq: "cut_balanced_json text start = Inr (cut_spec text start)"
proof (cases "0 \<le> start \<and> start < int (length text) \<and> text ! nat start = 123")
  case False
  then show ?thesis
    by (auto simp: cut_balanced_json_def cut_spec_def getitem_def Let_def)
next
  case True
  then obtain s where s: "start = int s" "s < length text" "text ! s = 123"
    by (metis nat_0_le nat_int of_nat_less_iff)
  define w where "w = drop s text"
  have "cut_loop text s (s + 0) (nesting_depth (take 0 w)) (ins (quote_state (take 0 w)))
          (esc (quote_state (take 0 w))) = Inr (balanced_prefix w)"
    using s by (intro cut_loop_inv) (simp_all add: w_def)
  then have "cut_loop text s s 0 False False = Inr (balanced_prefix w)"
    by (simp add: nesting_depth_def quote_state_def ins_def esc_def)
  then show ?thesis
    using s by (simp add: cut_balanced_json_def cut_spec_def getitem_def Let_def w_def)
qed

text \<open>
  The example of the specification: in
  \<^verbatim>\<open>{"signals": [{"a": "} still inside string }"}]}\<close> the braces inside the quoted
  string do not end the object, and the scanner returns the whole outer object.
\<close>

lemma cut_balanced_json_quoted_brace_example:
  "cut_balanced_json
     (lit ''{'' @ [34] @ lit ''signals'' @ [34] @ lit '': [{'' @ [34] @ lit ''a'' @ [34] @ lit '': ''
        @ [34] @ lit ''} still inside string }'' @ [34] @ lit ''}]} trailing'') 0
   = Inr (lit ''{'' @ [34] @ lit ''signals'' @ [34] @ lit '': [{'' @ [34] @ lit ''a'' @ [34] @ lit '': ''
        @ [34] @ lit ''} still inside string }'' @ [34] @ lit ''}]}'')"
  by code_simp

text \<open>
  Claim C7. For every text and every start index, \<open>cut_balanced_json\<close> raises nothing and
  returns what the contract \<open>cut_spec\<close> describes: the empty string when \<open>start\<close> is
  negative, past the end, or not at an opening brace; otherwise the shortest prefix of
  the text from \<open>start\<close> on whose nesting depth is back to zero, where braces between
  unescaped double quotes are not counted and a backslash inside a string escapes the
  next character; and the empty string when no prefix reaches depth zero before the end
  of the input.
\<close>

theorem cut_balanced_json_meets_contract:
  "cut_balanced_json text start = Inr (cut_spec text start)"
  by (rule cut_balanced_json_eq)

section \<open>Properties of the news compaction\<close>

lemma counts_upd: "counts (m(t \<mapsto> n)) = (counts m)(t := n)"
  by (auto simp: counts_def fun_eq_iff)

lemma counts_same: "counts (m(t \<mapsto> counts m t)) = counts m"
  by (auto simp: counts_def fun_eq_iff)

lemma compact_loop_accept:
  "compact_loop up N K rest m urls cs =
     (cs @ map (compact_of up) (take (max 1 (nat (N - int (length cs)))) (accept up K (counts m) rest)),
      urls @ nonempty_urls up (take (max 1 (nat (N - int (length cs)))) (accept up K (counts m) rest)))"
proof (induction rest arbitrary: m urls cs)
  case Nil
  then show ?case by (simp add: nonempty_urls_def)
next
  case (Cons x rest)
  let ?t = "bucket up x"
  let ?n = "counts m ?t"
  have n: "(case m ?t of None \<Rightarrow> 0 | Some k \<Rightarrow> k) = ?n" by (simp add: counts_def)
  show ?case
  proof (cases "int ?n \<ge> K")
    case True
    have ih: "compact_loop up N K rest (m(?t \<mapsto> ?n)) urls cs =
       (cs @ map (compact_of up) (take (max 1 (nat (N - int (length cs)))) (accept up K (counts m) rest)),
        urls @ nonempty_urls up (take (max 1 (nat (N - int (length cs)))) (accept up K (counts m) rest)))"
      by (simp only: Cons.IH counts_same)
    show ?thesis
      using True by (simp add: n Let_def ih del: fun_upd_apply)
  next
    case False
    note nf = False
    show ?thesis
    proof (cases "int (length (cs @ [compact_of up x])) \<ge> N")
      case True
      then have "max 1 (nat (N - int (length cs))) = 1" by simp
      then show ?thesis using nf True
        by (simp add: n Let_def nonempty_urls_def)
    next
      case False
      then have m1: "max 1 (nat (N - int (length cs))) = Suc (max 1 (nat (N - int (length (cs @ [compact_of up x])))))"
        by simp
      define urls' where "urls' = (if c_url (compact_of up x) \<noteq> [] then urls @ [c_url (compact_of up x)] else urls)"
      define rest' where "rest' = take (max 1 (nat (N - int (length (cs @ [compact_of up x])))))
              (accept up K ((counts m)(?t := Suc ?n)) rest)"
      have ih: "compact_loop up N K rest (m(?t \<mapsto> Suc ?n)) urls' (cs @ [compact_of up x]) =
         ((cs @ [compact_of up x]) @ map (compact_of up) rest', urls' @ nonempty_urls up rest')"
        by (simp only: Cons.IH counts_upd rest'_def)
      have acc: "take (max 1 (nat (N - int (length cs)))) (accept up K (counts m) (x # rest)) = x # rest'"
        using nf by (simp only: m1 rest'_def) simp
      have "compact_loop up N K (x # rest) m urls cs
              = compact_loop up N K rest (m(?t \<mapsto> Suc ?n)) urls' (cs @ [compact_of up x])"
        using nf False by (simp add: n Let_def urls'_def del: fun_upd_apply length_append)
      also have "\<dots> = (cs @ map (compact_of up) (x # rest'), urls @ nonempty_urls up (x # rest'))"
        by (simp only: ih) (simp add: urls'_def nonempty_urls_def)
      finally show ?thesis by (simp only: acc)
    qed
  qed
qed

lemma upt_Suc_shift: "[0..<Suc n] = 0 # map Suc [0..<n]"
  by (simp add: upt_conv_Cons map_Suc_upt del: upt_Suc)

lemma accept_eligible_gen:
  assumes "\<forall>b. cnt b = seen_count up seen b \<or> (K \<le> int (cnt b) \<and> K \<le> int (seen_count up seen b))"
  shows "accept up K cnt xs =
           map (\<lambda>i. xs ! i)
             (filter (\<lambda>i. int (seen_count up (seen @ take i xs) (bucket up (xs ! i))) < K) [0..<length xs])"
  using assms
proof (induction xs arbitrary: cnt seen)
  case Nil
  then show ?case by simp
next
  case (Cons x xs)
  let ?b = "bucket up x"
  let ?P = "\<lambda>sn ys i. int (seen_count up (sn @ take i ys) (bucket up (ys ! i))) < K"
  have shift: "map (\<lambda>i. (x # xs) ! i) (filter (?P seen (x # xs)) [0..<length (x # xs)])
      = (if int (seen_count up seen ?b) < K then [x] else [])
        @ map (\<lambda>i. xs ! i) (filter (?P (seen @ [x]) xs) [0..<length xs])"
    by (simp add: upt_Suc_shift filter_map comp_def del: upt_Suc)
  have eq: "int (cnt ?b) \<ge> K \<longleftrightarrow> int (seen_count up seen ?b) \<ge> K"
    using Cons.prems by (metis)
  show ?case
  proof (cases "int (cnt ?b) \<ge> K")
    case True
    have inv: "\<forall>b. cnt b = seen_count up (seen @ [x]) b \<or> (K \<le> int (cnt b) \<and> K \<le> int (seen_count up (seen @ [x]) b))"
      using Cons.prems True eq by (auto simp: seen_count_def)
    have "accept up K cnt (x # xs) = accept up K cnt xs" using True by simp
    also note Cons.IH[OF inv]
    finally show ?thesis using True eq by (simp only: shift) simp
  next
    case False
    then have c: "cnt ?b = seen_count up seen ?b" using Cons.prems by (metis)
    have inv: "\<forall>b. (cnt(?b := Suc (cnt ?b))) b = seen_count up (seen @ [x]) b
          \<or> (K \<le> int ((cnt(?b := Suc (cnt ?b))) b) \<and> K \<le> int (seen_count up (seen @ [x]) b))"
      using Cons.prems c by (auto simp: seen_count_def)
    have "accept up K cnt (x # xs) = x # accept up K (cnt(?b := Suc (cnt ?b))) xs"
      using False by simp
    also note Cons.IH[OF inv]
    finally show ?thesis using False eq by (simp only: shift) simp
  qed
qed

lemma accept_eligible: "accept up K (\<lambda>b. 0) news = eligible_items up K news"
proof -
  have "\<forall>b. (\<lambda>b. 0) b = seen_count up [] b \<or> (K \<le> int ((\<lambda>b. 0::nat) b) \<and> K \<le> int (seen_count up [] b))"
    by (simp add: seen_count_def)
  from accept_eligible_gen[OF this, of news]
  show ?thesis by (simp add: eligible_items_def eligible_def seen_count_def cong: filter_cong)
qed

lemma trim_take:
  "\<exists>m\<le>length cs. trim cs B = take m cs \<and> (m = 0 \<or> size_of (take m cs) \<le> B)
      \<and> (\<forall>j. m < j \<and> j \<le> length cs \<longrightarrow> B < size_of (take j cs))"
proof (induction cs B rule: trim.induct)
  case (1 cs B)
  show ?case
  proof (cases "cs \<noteq> [] \<and> size_of cs > B")
    case True
    from 1[OF True] obtain m where m: "m \<le> length (butlast cs)"
      "trim (butlast cs) B = take m (butlast cs)"
      "m = 0 \<or> size_of (take m (butlast cs)) \<le> B"
      "\<forall>j. m < j \<and> j \<le> length (butlast cs) \<longrightarrow> B < size_of (take j (butlast cs))"
      by blast
    have tk: "\<And>j. j \<le> length (butlast cs) \<Longrightarrow> take j (butlast cs) = take j cs"
    proof -
      fix j assume "j \<le> length (butlast cs)"
      moreover have "length (butlast cs) < length cs" using True by simp
      ultimately show "take j (butlast cs) = take j cs" by (intro take_butlast) simp
    qed
    have t: "trim cs B = trim (butlast cs) B" using True by (subst trim.simps) simp
    have big: "\<forall>j. m < j \<and> j \<le> length cs \<longrightarrow> B < size_of (take j cs)"
    proof (intro allI impI)
      fix j assume j: "m < j \<and> j \<le> length cs"
      show "B < size_of (take j cs)"
      proof (cases "j = length cs")
        case True
        then show ?thesis using \<open>cs \<noteq> [] \<and> size_of cs > B\<close> by simp
      next
        case False
        then have "j \<le> length (butlast cs)" using j by (simp only: length_butlast) linarith
        then show ?thesis using m(4) j tk by metis
      qed
    qed
    show ?thesis
      using m t tk big by (intro exI[of _ m]) (auto)
  next
    case False
    then have "trim cs B = cs" by (subst trim.simps) auto
    then show ?thesis using False by (intro exI[of _ "length cs"]) auto
  qed
qed

lemma length_join: "length (join sep xs) = sum_list (map length xs) + length sep * (length xs - 1)"
  by (induction sep xs rule: join.induct) auto

lemma size_of_mono: "size_of xs \<le> size_of (xs @ ys)"
proof -
  have "length xs - 1 \<le> length xs + length ys - 1" by simp
  then have "length (lit '', '') * (length xs - 1) \<le> length (lit '', '') * (length xs + length ys - 1)"
    by (rule mult_le_mono2)
  then have "length (json_dumps xs) \<le> length (json_dumps (xs @ ys))"
    by (auto simp: json_dumps_def length_join intro: trans_le_add2)
  then show ?thesis by (simp only: size_of_def of_nat_le_iff)
qed

lemma remdups_snoc: "remdups (xs @ [u]) = remdups (filter (\<lambda>v. v \<noteq> u) xs) @ [u]"
  by (induction xs) auto

lemma dedup_loop_first_seen:
  "dedup_loop us seen acc = acc @ first_seen (filter (\<lambda>u. u \<noteq> [] \<and> u \<notin> seen) us)"
proof (induction us arbitrary: seen acc)
  case Nil
  then show ?case by (simp add: first_seen_def)
next
  case (Cons u us)
  show ?case
  proof (cases "u \<noteq> [] \<and> u \<notin> seen")
    case True
    have "first_seen (u # filter (\<lambda>v. v \<noteq> [] \<and> v \<notin> seen) us)
            = u # first_seen (filter (\<lambda>v. v \<noteq> [] \<and> v \<notin> insert u seen) us)"
    proof -
      have "remdups (rev (filter (\<lambda>v. v \<noteq> [] \<and> v \<notin> seen) us) @ [u])
              = remdups (filter (\<lambda>v. v \<noteq> u) (rev (filter (\<lambda>v. v \<noteq> [] \<and> v \<notin> seen) us))) @ [u]"
        by (rule remdups_snoc)
      also have "filter (\<lambda>v. v \<noteq> u) (rev (filter (\<lambda>v. v \<noteq> [] \<and> v \<notin> seen) us))
              = rev (filter (\<lambda>v. v \<noteq> [] \<and> v \<notin> insert u seen) us)"
        by (simp add: rev_filter[symmetric] conj_commute conj_left_commute cong: conj_cong)
      finally show ?thesis by (simp add: first_seen_def)
    qed
    then show ?thesis using True Cons.IH[of "insert u seen" "acc @ [u]"] by simp
  next
    case False
    then show ?thesis using Cons.IH[of seen acc] by auto
  qed
qed

lemma distinct_first_seen: "distinct (first_seen xs)"
  by (simp add: first_seen_def)

lemma set_first_seen: "set (first_seen xs) = set xs"
  by (simp add: first_seen_def)

lemma accept_cap:
  "length (filter (\<lambda>x. bucket up x = b) (accept up K cnt xs)) \<le> nat K - cnt b"
proof (induction xs arbitrary: cnt)
  case Nil
  then show ?case by simp
next
  case (Cons x xs)
  show ?case
  proof (cases "int (cnt (bucket up x)) \<ge> K")
    case True
    then show ?thesis using Cons.IH[of cnt] by simp
  next
    case False
    have "length (filter (\<lambda>x. bucket up x = b) (accept up K (cnt(bucket up x := Suc (cnt (bucket up x)))) xs))
            \<le> nat K - (cnt(bucket up x := Suc (cnt (bucket up x)))) b" by (rule Cons.IH)
    then show ?thesis using False by (cases "bucket up x = b") auto
  qed
qed

lemma accept_subseq: "subseq (accept up K cnt xs) xs"
  by (induction xs arbitrary: cnt) auto

lemma length_filter_take: "length (filter P (take n xs)) \<le> length (filter P xs)"
proof -
  have "length (filter P xs) = length (filter P (take n xs @ drop n xs))" by simp
  also have "\<dots> = length (filter P (take n xs)) + length (filter P (drop n xs))"
    by (simp only: filter_append length_append)
  finally show ?thesis by simp
qed

lemma compact_news_eq:
  "compact_news up news N K B =
     (trim (map (compact_of up) (accepted up N K news)) B,
      first_seen (nonempty_urls up (accepted up N K news)))"
proof (cases "news = []")
  case True
  have "trim [] B = []" by (subst trim.simps) simp
  then show ?thesis using True
    by (simp add: compact_news_def accepted_def eligible_items_def nonempty_urls_def first_seen_def)
next
  case False
  have c0: "counts Map.empty = (\<lambda>b. 0)" by (simp add: counts_def fun_eq_iff)
  have ne: "\<And>xs. filter (\<lambda>u. u \<noteq> []) (nonempty_urls up xs) = nonempty_urls up xs"
    by (simp add: nonempty_urls_def)
  show ?thesis using False
    by (simp add: compact_news_def compact_loop_accept c0 accept_eligible accepted_def
          dedup_loop_first_seen ne)
qed

text \<open>The example items, evaluated.\<close>

lemma ex_compact_of: "compact_of ascii_upper (ex_item ''aapl'' '' u1 '') = ex_entry ''AAPL'' ''u1''"
  "compact_of ascii_upper (ex_item ''AAPL'' ''u1'') = ex_entry ''AAPL'' ''u1''"
  by (simp_all add: compact_of_def ex_item_def ex_entry_def bucket_def or_empty_def stamp_or_empty_def
        ascii_upper_def lit_def strip_def isspace_def Let_def)

lemma ex_size_of: "size_of [ex_entry ''AAPL'' ''u1''] = 98"
  "size_of [ex_entry ''AAPL'' ''u1'', ex_entry ''AAPL'' ''u1''] = 196"
  by (simp_all add: size_of_def json_dumps_def dumps_entry_def dumps_key_def dumps_str_def dumps_stamp_def
        dumps_int_def dec_nat.simps esc_char_def ex_entry_def lit_def)

lemma ex_bucket: "bucket ascii_upper (ex_item ''aapl'' '' u1 '') = lit ''AAPL''"
  "bucket ascii_upper (ex_item ''AAPL'' ''u1'') = lit ''AAPL''"
  by (simp_all add: bucket_def ex_item_def or_empty_def ascii_upper_def lit_def)

lemma ex_accepted:
  "accepted ascii_upper 20 4 [ex_item ''aapl'' '' u1 '', ex_item ''AAPL'' ''u1'']
     = [ex_item ''aapl'' '' u1 '', ex_item ''AAPL'' ''u1'']"
  by (simp add: accepted_def eligible_items_def eligible_def ex_bucket upt_conv_Cons)

lemma ex_trim: "trim [ex_entry ''AAPL'' ''u1'', ex_entry ''AAPL'' ''u1''] 100 = [ex_entry ''AAPL'' ''u1'']"
  "trim [ex_entry ''AAPL'' ''u1'', ex_entry ''AAPL'' ''u1''] 10 = []"
  by (simp_all add: trim.simps ex_size_of)

lemma c_ticker_compact_of: "c_ticker (compact_of up x) = bucket up x"
  by (simp add: compact_of_def Let_def)



lemma eligible_cap: "length (filter (\<lambda>x. bucket up x = b) (eligible_items up K news)) \<le> nat K"
  using accept_cap[of up b K "\<lambda>b. 0" news] by (simp add: accept_eligible)

lemma accepted_cap: "length (filter (\<lambda>x. bucket up x = b) (accepted up N K news)) \<le> nat K"
  unfolding accepted_def
  by (rule order_trans[OF length_filter_take eligible_cap])

lemma trim_prefix: "prefix (trim cs B) cs"
  using trim_take[of cs B] by (auto simp: take_is_prefix)

lemma eligible_subseq: "subseq (eligible_items up K news) news"
  using accept_subseq[of up K "\<lambda>b. 0" news] by (simp add: accept_eligible)

lemma accepted_subseq: "subseq (accepted up N K news) news"
  unfolding accepted_def
  by (meson eligible_subseq prefix_imp_subseq subseq_order.order_trans take_is_prefix)

lemma ex_nonempty_urls:
  "nonempty_urls ascii_upper [ex_item ''aapl'' '' u1 '', ex_item ''AAPL'' ''u1''] = [lit ''u1'', lit ''u1'']"
  by (simp add: nonempty_urls_def ex_compact_of ex_entry_def lit_def)

lemma ascii_upper_idem: "ascii_upper (ascii_upper s) = ascii_upper s"
  by (induction s) (auto simp: ascii_upper_def)

lemma ex_bucket_empty: "bucket ascii_upper (ex_no_ticker ''u3'') = []"
  "bucket ascii_upper (ex_item '''' ''u4'') = []"
  by (simp_all add: bucket_def ex_no_ticker_def ex_item_def or_empty_def ascii_upper_def lit_def)

text \<open>
  Claim C4. For every news list and every budget, the compact list that \<open>compact_news\<close>
  returns either serializes (by \<open>json_dumps\<close>) to at most \<open>max_chars\<close> characters or is
  empty. It is what remains of the accepted entries after dropping entries from the end:
  a prefix of them, and every longer prefix is over the budget, so nothing is dropped
  that would fit. When the first entry alone is over the budget, the result is empty.
\<close>

theorem compact_news_within_budget:
  "let r = fst (compact_news upper news max_items per_ticker max_chars);
       cand = map (compact_of upper) (accepted upper max_items per_ticker news)
   in (size_of r \<le> max_chars \<or> r = [])
      \<and> prefix r cand
      \<and> (\<forall>j. length r < j \<and> j \<le> length cand \<longrightarrow> max_chars < size_of (take j cand))
      \<and> (cand \<noteq> [] \<and> max_chars < size_of [hd cand] \<longrightarrow> r = [])"
proof -
  define cand where "cand = map (compact_of upper) (accepted upper max_items per_ticker news)"
  define r where "r = fst (compact_news upper news max_items per_ticker max_chars)"
  have r: "r = trim cand max_chars" by (simp add: r_def cand_def compact_news_eq)
  obtain m where m: "m \<le> length cand" "trim cand max_chars = take m cand"
      "m = 0 \<or> size_of (take m cand) \<le> max_chars"
      "\<forall>j. m < j \<and> j \<le> length cand \<longrightarrow> max_chars < size_of (take j cand)"
    using trim_take[of cand max_chars] by blast
  have len: "length r = m" using m(1,2) r by simp
  have a: "size_of r \<le> max_chars \<or> r = []" using m r by auto
  have b: "prefix r cand" using m(2) r by (simp add: take_is_prefix)
  have c: "\<forall>j. length r < j \<and> j \<le> length cand \<longrightarrow> max_chars < size_of (take j cand)"
    using m(4) len by simp
  have d: "cand \<noteq> [] \<and> max_chars < size_of [hd cand] \<longrightarrow> r = []"
  proof (intro impI, rule ccontr)
    assume h: "cand \<noteq> [] \<and> max_chars < size_of [hd cand]" and "r \<noteq> []"
    then have "size_of r \<le> max_chars" using a by simp
    moreover obtain rest where "r = [hd cand] @ rest"
      using \<open>r \<noteq> []\<close> b h by (cases r; cases cand) (auto)
    ultimately show False using h size_of_mono[of "[hd cand]" rest] by simp
  qed
  show ?thesis using a b c d by (simp add: Let_def r_def[symmetric] cand_def[symmetric])
qed

text \<open>
  Two items in one bucket: with the budget 100 the second entry is dropped (one entry
  takes 98 characters, two take 196); with the budget 10 the first entry alone is over
  the budget and the result is empty.
\<close>

theorem compact_news_within_budget_witness:
  "fst (compact_news ascii_upper [ex_item ''aapl'' '' u1 '', ex_item ''AAPL'' ''u1''] 20 4 100)
      = [ex_entry ''AAPL'' ''u1'']
   \<and> size_of [ex_entry ''AAPL'' ''u1''] \<le> 100
   \<and> 100 < size_of [ex_entry ''AAPL'' ''u1'', ex_entry ''AAPL'' ''u1'']
   \<and> 10 < size_of [ex_entry ''AAPL'' ''u1'']
   \<and> fst (compact_news ascii_upper [ex_item ''aapl'' '' u1 '', ex_item ''AAPL'' ''u1''] 20 4 10) = []"
proof -
  let ?news = "[ex_item ''aapl'' '' u1 '', ex_item ''AAPL'' ''u1'']"
  have big: "map (compact_of ascii_upper) (accepted ascii_upper 20 4 ?news) \<noteq> []
      \<and> 10 < size_of [hd (map (compact_of ascii_upper) (accepted ascii_upper 20 4 ?news))]"
    by (simp add: ex_accepted ex_compact_of ex_size_of)
  have empty: "fst (compact_news ascii_upper ?news 20 4 10) = []"
    using compact_news_within_budget[of ascii_upper ?news 20 4 10] big
    by (simp only: Let_def) blast
  have one: "fst (compact_news ascii_upper ?news 20 4 100) = [ex_entry ''AAPL'' ''u1'']"
    by (simp add: compact_news_eq ex_accepted ex_compact_of ex_trim)
  show ?thesis using one empty by (simp add: ex_size_of)
qed




text \<open>
  Claim C9. For every news list, the citation list that \<open>compact_news\<close> returns has no
  duplicate, is the list of the non-empty (stripped) URLs of the accepted items with
  only the first occurrence of each kept, in traversal order, and does not depend on
  the character budget: trimming changes the compact list alone, so the URL of an entry
  that was trimmed away stays in the citation list.
\<close>

theorem citation_list_independent_of_trimming:
  "distinct (snd (compact_news upper news max_items per_ticker max_chars))
   \<and> snd (compact_news upper news max_items per_ticker max_chars)
       = first_seen (nonempty_urls upper (accepted upper max_items per_ticker news))
   \<and> snd (compact_news upper news max_items per_ticker other_max_chars)
       = snd (compact_news upper news max_items per_ticker max_chars)"
  by (simp add: compact_news_eq distinct_first_seen)

text \<open>
  With the budget 10 every entry is trimmed away and the URL stays; with the budget 100
  one entry is kept and the citation list is the same.
\<close>

theorem citation_list_independent_of_trimming_witness:
  "compact_news ascii_upper [ex_item ''aapl'' '' u1 '', ex_item ''AAPL'' ''u1''] 20 4 10 = ([], [lit ''u1''])
   \<and> compact_news ascii_upper [ex_item ''aapl'' '' u1 '', ex_item ''AAPL'' ''u1''] 20 4 100
        = ([ex_entry ''AAPL'' ''u1''], [lit ''u1''])"
proof -
  let ?news = "[ex_item ''aapl'' '' u1 '', ex_item ''AAPL'' ''u1'']"
  have fs: "first_seen [lit ''u1'', lit ''u1''] = [lit ''u1'']"
    by (simp add: first_seen_def)
  have u: "snd (compact_news ascii_upper ?news 20 4 10) = [lit ''u1'']"
    "snd (compact_news ascii_upper ?news 20 4 100) = snd (compact_news ascii_upper ?news 20 4 10)"
    using citation_list_independent_of_trimming[of ascii_upper ?news 20 4 10 100]
    by (simp_all add: ex_accepted ex_nonempty_urls fs)
  have f: "fst (compact_news ascii_upper ?news 20 4 10) = []"
    "fst (compact_news ascii_upper ?news 20 4 100) = [ex_entry ''AAPL'' ''u1'']"
    by (simp_all add: compact_news_eq ex_accepted ex_compact_of ex_trim)
  show ?thesis using u f by (simp add: prod_eq_iff)
qed

text \<open>
  Claim C10. \<open>compact_news\<close> counts items per upper-cased ticker, a missing ticker
  counting as the empty string: the compact list is built from a subsequence \<open>kept\<close> of
  the input in which, for every key, at most \<open>per_ticker\<close> items have that key as their
  upper-cased ticker, so items whose tickers differ only in case, or that both lack a
  ticker, share one bucket. Every entry's ticker field is the upper-cased ticker of an
  input item, and it is left unchanged by \<open>upper\<close> whenever \<open>upper\<close> is idempotent, as
  \<^verbatim>\<open>str.upper\<close> is.
\<close>

theorem compact_news_ticker_buckets:
  "(\<exists>kept. subseq kept news
       \<and> fst (compact_news upper news max_items per_ticker max_chars) = map (compact_of upper) kept
       \<and> (0 \<le> per_ticker \<longrightarrow>
            (\<forall>k. int (length (filter (\<lambda>x. upper (or_empty (ticker x)) = k) kept)) \<le> per_ticker)))
   \<and> (\<forall>c \<in> set (fst (compact_news upper news max_items per_ticker max_chars)).
         \<exists>x \<in> set news. c_ticker c = upper (or_empty (ticker x)))
   \<and> ((\<forall>s. upper (upper s) = upper s) \<longrightarrow>
        (\<forall>c \<in> set (fst (compact_news upper news max_items per_ticker max_chars)).
           upper (c_ticker c) = c_ticker c))"
proof -
  define acc where "acc = accepted upper max_items per_ticker news"
  define r where "r = fst (compact_news upper news max_items per_ticker max_chars)"
  have "prefix r (map (compact_of upper) acc)"
    by (simp add: r_def acc_def compact_news_eq trim_prefix)
  then obtain m where "r = take m (map (compact_of upper) acc)"
    by (metis append_eq_conv_conj prefix_def)
  then have r: "r = map (compact_of upper) (take m acc)" by (simp add: take_map)
  have sub: "subseq (take m acc) news"
    by (metis acc_def accepted_subseq prefix_imp_subseq subseq_order.order_trans take_is_prefix)
  have cap: "int (length (filter (\<lambda>x. upper (or_empty (ticker x)) = k) (take m acc))) \<le> per_ticker"
    if "0 \<le> per_ticker" for k
  proof -
    have "length (filter (\<lambda>x. bucket upper x = k) (take m acc)) \<le> length (filter (\<lambda>x. bucket upper x = k) acc)"
      by (rule length_filter_take)
    also have "\<dots> \<le> nat per_ticker" unfolding acc_def by (rule accepted_cap)
    finally show ?thesis using that by (simp add: bucket_def)
  qed
  have mem: "\<exists>x \<in> set news. c_ticker c = upper (or_empty (ticker x))" if "c \<in> set r" for c
  proof -
    from that obtain x where x: "x \<in> set (take m acc)" "c = compact_of upper x" using r by auto
    then have "x \<in> set news" using sub by (auto dest: list_emb_set)
    then show ?thesis using x by (auto simp: c_ticker_compact_of bucket_def)
  qed
  have idem: "upper (c_ticker c) = c_ticker c" if "\<forall>s. upper (upper s) = upper s" "c \<in> set r" for c
    using mem[OF that(2)] that(1) by auto
  have one: "\<exists>kept. subseq kept news \<and> r = map (compact_of upper) kept
       \<and> (0 \<le> per_ticker \<longrightarrow>
            (\<forall>k. int (length (filter (\<lambda>x. upper (or_empty (ticker x)) = k) kept)) \<le> per_ticker))"
    using sub r cap by (intro exI[of _ "take m acc"]) simp
  show ?thesis using one mem idem unfolding r_def by blast
qed

text \<open>
  Four items, one per bucket allowed: \<^verbatim>\<open>aapl\<close> and \<^verbatim>\<open>AAPL\<close> share a bucket, and so do
  the item without a ticker and the item whose ticker is empty; the two entries kept
  carry the tickers \<^verbatim>\<open>AAPL\<close> and the empty string.
\<close>

theorem compact_news_ticker_buckets_witness:
  "(0::int) \<le> 1 \<and> (\<forall>s. ascii_upper (ascii_upper s) = ascii_upper s)
   \<and> map c_ticker (fst (compact_news ascii_upper
         [ex_item ''aapl'' '' u1 '', ex_item ''AAPL'' ''u1'', ex_no_ticker ''u3'', ex_item '''' ''u4'']
         20 1 8000))
      = [lit ''AAPL'', []]"
proof -
  let ?news = "[ex_item ''aapl'' '' u1 '', ex_item ''AAPL'' ''u1'', ex_no_ticker ''u3'', ex_item '''' ''u4'']"
  let ?r = "fst (compact_news ascii_upper ?news 20 1 8000)"
  have acc: "accepted ascii_upper 20 1 ?news = [ex_item ''aapl'' '' u1 '', ex_no_ticker ''u3'']"
    by (simp add: accepted_def eligible_items_def eligible_def ex_bucket ex_bucket_empty upt_conv_Cons lit_def)
  have sz: "size_of (map (compact_of ascii_upper) [ex_item ''aapl'' '' u1 '', ex_no_ticker ''u3'']) \<le> 8000"
    by (simp add: size_of_def json_dumps_def dumps_entry_def dumps_key_def dumps_str_def dumps_stamp_def
        dumps_int_def dec_nat.simps esc_char_def lit_def compact_of_def ex_item_def ex_no_ticker_def
        bucket_def or_empty_def stamp_or_empty_def ascii_upper_def strip_def isspace_def Let_def)
  have r: "?r = map (compact_of ascii_upper) [ex_item ''aapl'' '' u1 '', ex_no_ticker ''u3'']"
    using sz by (simp add: compact_news_eq acc trim.simps)
  have tick: "map c_ticker ?r = [lit ''AAPL'', []]"
    by (simp only: r list.map c_ticker_compact_of ex_bucket ex_bucket_empty)
  have "\<forall>c \<in> set ?r. ascii_upper (c_ticker c) = c_ticker c"
    using compact_news_ticker_buckets[of ?news ascii_upper 20 1 8000] ascii_upper_idem by blast
  then show ?thesis using tick ascii_upper_idem by simp
qed

section \<open>Deduplication of the aggregated news\<close>

lemma dedup_items_acc: "dedup_items items seen acc = acc @ dedup_items items seen []"
proof (induction items arbitrary: seen acc)
  case Nil
  then show ?case by simp
next
  case (Cons it items)
  show ?case
  proof (cases "url it")
    case None
    then show ?thesis using Cons.IH[of seen acc] by simp
  next
    case (Some u)
    show ?thesis
    proof (cases "u \<noteq> [] \<and> u \<notin> seen")
      case True
      then show ?thesis
        using Some Cons.IH[of "insert u seen" "acc @ [it]"] Cons.IH[of "insert u seen" "[it]"] by simp
    next
      case False
      then show ?thesis using Some Cons.IH[of seen acc] by auto
    qed
  qed
qed

lemma dedup_items_Cons:
  "dedup_items (it # items) seen [] =
     (if has_url it \<and> the (url it) \<notin> seen then it # dedup_items items (insert (the (url it)) seen) []
      else dedup_items items seen [])"
  using dedup_items_acc[of items "insert (the (url it)) seen" "[it]"]
  by (auto simp: has_url_def dedup_items.simps(2) split: option.splits)

declare dedup_items.simps(2) [simp del]

lemma dedup_items_keep:
  "has_url it \<and> the (url it) \<notin> seen \<Longrightarrow>
     dedup_items (it # items) seen [] = it # dedup_items items (insert (the (url it)) seen) []"
  by (simp add: dedup_items_Cons)

lemma dedup_items_skip:
  "\<not> (has_url it \<and> the (url it) \<notin> seen) \<Longrightarrow>
     dedup_items (it # items) seen [] = dedup_items items seen []"
  by (auto simp: dedup_items_Cons)

lemma dedup_items_sound:
  "x \<in> set (dedup_items items seen []) \<Longrightarrow> x \<in> set items \<and> has_url x \<and> the (url x) \<notin> seen"
proof (induction items arbitrary: seen)
  case Nil
  then show ?case by simp
next
  case (Cons it items)
  show ?case
  proof (cases "has_url it \<and> the (url it) \<notin> seen")
    case True
    then have "x = it \<or> x \<in> set (dedup_items items (insert (the (url it)) seen) [])"
      using Cons.prems by (simp add: dedup_items_keep)
    then show ?thesis using True Cons.IH[of "insert (the (url it)) seen"] by auto
  next
    case False
    then have "x \<in> set (dedup_items items seen [])" using Cons.prems by (simp add: dedup_items_skip[OF False])
    then show ?thesis using Cons.IH[of seen] by auto
  qed
qed

lemma has_url_eq: "has_url x \<Longrightarrow> has_url y \<Longrightarrow> url x = url y \<longleftrightarrow> the (url x) = the (url y)"
  by (auto simp: has_url_def split: option.splits)

lemma dedup_items_distinct: "distinct (map url (dedup_items items seen []))"
proof (induction items arbitrary: seen)
  case Nil
  then show ?case by simp
next
  case (Cons it items)
  show ?case
  proof (cases "has_url it \<and> the (url it) \<notin> seen")
    case True
    have "url it \<notin> url ` set (dedup_items items (insert (the (url it)) seen) [])"
    proof
      assume "url it \<in> url ` set (dedup_items items (insert (the (url it)) seen) [])"
      then obtain x where x: "x \<in> set (dedup_items items (insert (the (url it)) seen) [])" "url x = url it"
        by auto
      from dedup_items_sound[OF x(1)] x(2) show False by simp
    qed
    then show ?thesis using Cons.IH by (simp add: dedup_items_keep[OF True])
  next
    case False
    then show ?thesis using Cons.IH by (simp add: dedup_items_skip[OF False])
  qed
qed

lemma dedup_items_subseq: "subseq (dedup_items items seen []) items"
  by (induction items arbitrary: seen) (auto simp: dedup_items_Cons)

lemma dedup_items_complete:
  "x \<in> set items \<Longrightarrow> has_url x \<Longrightarrow> the (url x) \<notin> seen \<Longrightarrow> url x \<in> url ` set (dedup_items items seen [])"
proof (induction items arbitrary: seen)
  case Nil
  then show ?case by simp
next
  case (Cons it items)
  show ?case
  proof (cases "has_url it \<and> the (url it) \<notin> seen")
    case True
    show ?thesis
    proof (cases "url x = url it")
      case True
      then show ?thesis by (simp add: dedup_items_keep[OF \<open>has_url it \<and> the (url it) \<notin> seen\<close>])
    next
      case False
      then have "x \<in> set items" "the (url x) \<notin> insert (the (url it)) seen"
        using Cons.prems True by (auto simp: has_url_eq)
      then show ?thesis using Cons.IH[of "insert (the (url it)) seen"] Cons.prems(2)
        by (simp add: dedup_items_keep[OF True])
    qed
  next
    case False
    then have "x \<noteq> it" using Cons.prems by auto
    then show ?thesis using Cons.IH[of seen] Cons.prems by (simp add: dedup_items_skip[OF False])
  qed
qed

lemma dedup_items_first:
  "x \<in> set (dedup_items items seen []) \<Longrightarrow> List.find (\<lambda>y. url y = url x) items = Some x"
proof (induction items arbitrary: seen)
  case Nil
  then show ?case by simp
next
  case (Cons it items)
  show ?case
  proof (cases "has_url it \<and> the (url it) \<notin> seen")
    case True
    then have "x = it \<or> x \<in> set (dedup_items items (insert (the (url it)) seen) [])"
      using Cons.prems by (simp add: dedup_items_keep)
    then show ?thesis
    proof
      assume "x = it" then show ?thesis by simp
    next
      assume x: "x \<in> set (dedup_items items (insert (the (url it)) seen) [])"
      from dedup_items_sound[OF x] have "url it \<noteq> url x" by auto
      then show ?thesis using Cons.IH[OF x] by simp
    qed
  next
    case False
    then have x: "x \<in> set (dedup_items items seen [])" using Cons.prems by (simp add: dedup_items_skip[OF False])
    from dedup_items_sound[OF x] False have "url it \<noteq> url x"
      by (auto simp: has_url_def split: option.splits)
    then show ?thesis using Cons.IH[OF x] by simp
  qed
qed

text \<open>
  Claim C6. Whatever the upstream calls return, the list that \<open>fetch_relevant_news\<close>
  returns holds no URL twice, holds only items with a non-empty URL, holds every
  non-empty URL of the collected items, keeps the collected items' relative order (it
  is a subsequence of them), and keeps for each URL the first collected item that
  carries it.
\<close>

theorem fetch_relevant_news_dedup:
  "distinct (map url (fetch_relevant_news rss search tickers))
   \<and> (\<forall>it \<in> set (fetch_relevant_news rss search tickers). has_url it)
   \<and> (\<forall>x \<in> set (collect rss search tickers).
         has_url x \<longrightarrow> url x \<in> url ` set (fetch_relevant_news rss search tickers))
   \<and> subseq (fetch_relevant_news rss search tickers) (collect rss search tickers)
   \<and> (\<forall>it \<in> set (fetch_relevant_news rss search tickers).
         List.find (\<lambda>y. url y = url it) (collect rss search tickers) = Some it)"
  unfolding fetch_relevant_news_def
  using dedup_items_sound[of _ "collect rss search tickers" "{}"]
        dedup_items_complete[of _ "collect rss search tickers" "{}"]
        dedup_items_first[of _ "collect rss search tickers" "{}"]
  by (simp add: dedup_items_distinct dedup_items_subseq)

text \<open>
  One ticker; the feed gives two items, the search an item whose URL the feed already
  gave and an item with an empty URL: the two feed items are returned.
\<close>

theorem fetch_relevant_news_dedup_witness:
  "fetch_relevant_news (\<lambda>t. [ex_item ''AAPL'' ''u1'', ex_item ''AAPL'' ''u2''])
       (\<lambda>t. [ex_item ''MSFT'' ''u1'', ex_item ''MSFT'' '''']) [lit ''AAPL'']
     = [ex_item ''AAPL'' ''u1'', ex_item ''AAPL'' ''u2'']
   \<and> has_url (ex_item ''AAPL'' ''u1'') \<and> has_url (ex_item ''AAPL'' ''u2'')
   \<and> has_url (ex_item ''MSFT'' ''u1'') \<and> \<not> has_url (ex_item ''MSFT'' '''')"
proof -
  let ?rss = "\<lambda>t::pystr. [ex_item ''AAPL'' ''u1'', ex_item ''AAPL'' ''u2'']"
  let ?search = "\<lambda>t::pystr. [ex_item ''MSFT'' ''u1'', ex_item ''MSFT'' '''']"
  have ev: "fetch_relevant_news ?rss ?search [lit ''AAPL''] = [ex_item ''AAPL'' ''u1'', ex_item ''AAPL'' ''u2'']"
    by (simp add: fetch_relevant_news_def collect_def dedup_items.simps ex_item_def lit_def)
  have "\<forall>it \<in> set (fetch_relevant_news ?rss ?search [lit ''AAPL'']). has_url it"
    using fetch_relevant_news_dedup[of ?rss ?search "[lit ''AAPL'']"] by blast
  then have "has_url (ex_item ''AAPL'' ''u1'') \<and> has_url (ex_item ''AAPL'' ''u2'')"
    by (simp add: ev)
  moreover have "has_url (ex_item ''MSFT'' ''u1'') \<and> \<not> has_url (ex_item ''MSFT'' '''')"
    by (simp add: has_url_def ex_item_def lit_def)
  ultimately show ?thesis using ev by simp
qed

section \<open>The change in percent\<close>

lemma indicator_for_change_pct:
  "indicator_for (Inr hist) =
     Indicators \<lparr>i_price = last_close hist, i_prev_close = prev_close hist,
       i_change_pct =
         (case (last_close hist, prev_close hist) of
            (Some l, Some p) \<Rightarrow> if l \<noteq> 0 \<and> p \<noteq> 0 then Some ((l - p) / p * 100) else None
          | _ \<Rightarrow> None)\<rparr>"
  by (auto simp: indicator_for_def change_pct_def truthy_def truediv_def split: option.splits)

text \<open>
  Claim C2, as the code has it. For every ticker whose history was fetched, the record
  holds both closes and \<open>change_pct = (last - prev) / prev * 100\<close> exactly when both
  closes are present and neither is zero; otherwise \<open>change_pct\<close> is absent. The
  division is never reached with a zero divisor, so no record is lost to a division
  error: a ticker's record is \<open>Fetch_failed\<close> only when the fetch itself failed.
\<close>

theorem get_daily_indicators_change_pct:
  "get_daily_indicators history tickers =
     map (\<lambda>t. (t, case history t of
                   Inl e \<Rightarrow> Fetch_failed
                 | Inr hist \<Rightarrow>
                     Indicators \<lparr>i_price = last_close hist, i_prev_close = prev_close hist,
                       i_change_pct =
                         (case (last_close hist, prev_close hist) of
                            (Some l, Some p) \<Rightarrow>
                              if l \<noteq> 0 \<and> p \<noteq> 0 then Some ((l - p) / p * 100) else None
                          | _ \<Rightarrow> None)\<rparr>)) tickers"
  unfolding get_daily_indicators_def
proof (rule map_cong[OF refl])
  fix t
  show "(t, indicator_for (history t)) =
      (t, case history t of Inl e \<Rightarrow> Fetch_failed
          | Inr hist \<Rightarrow>
              Indicators \<lparr>i_price = last_close hist, i_prev_close = prev_close hist,
                i_change_pct =
                  (case (last_close hist, prev_close hist) of
                     (Some l, Some p) \<Rightarrow>
                       if l \<noteq> 0 \<and> p \<noteq> 0 then Some ((l - p) / p * 100) else None
                   | _ \<Rightarrow> None)\<rparr>)"
  proof (cases "history t")
    case (Inl e)
    then show ?thesis by (simp add: indicator_for_def)
  next
    case (Inr hist)
    then show ?thesis by (simp only: indicator_for_change_pct sum.case)
  qed
qed

text \<open>
  Closes 100 then 110 give 10 percent; a previous close of 0, and a single close, give
  no change and no error.
\<close>

theorem get_daily_indicators_change_pct_witness:
  "get_daily_indicators
      (\<lambda>t. if t = lit ''A'' then Inr [100, 110] else if t = lit ''B'' then Inr [0, 110] else Inr [110])
      [lit ''A'', lit ''B'', lit ''C'']
   = [(lit ''A'', Indicators \<lparr>i_price = Some 110, i_prev_close = Some 100, i_change_pct = Some 10\<rparr>),
      (lit ''B'', Indicators \<lparr>i_price = Some 110, i_prev_close = Some 0, i_change_pct = None\<rparr>),
      (lit ''C'', Indicators \<lparr>i_price = Some 110, i_prev_close = None, i_change_pct = None\<rparr>)]"
  using get_daily_indicators_change_pct[of
      "\<lambda>t. if t = lit ''A'' then Inr [100, 110] else if t = lit ''B'' then Inr [0, 110] else Inr [110]"
      "[lit ''A'', lit ''B'', lit ''C'']"]
  by (simp add: last_close_def prev_close_def lit_def)

text \<open>
  Where the claim as stated fails: closes 100 then 0. Both closes are present and the
  previous close is not zero, so the claim promises \<open>(0 - 100) / 100 * 100 = -100\<close>; the
  truth test \<^verbatim>\<open>last_close and prev_close\<close> is false for a last close of \<^verbatim>\<open>0.0\<close> and
  \<open>change_pct\<close> is absent.
\<close>

theorem change_pct_zero_last_close_counterexample:
  "last_close [100, 0] = Some 0 \<and> prev_close [100, 0] = Some 100 \<and> (100::real) \<noteq> 0
   \<and> indicator_for (Inr [100, 0]) =
        Indicators \<lparr>i_price = Some 0, i_prev_close = Some 100, i_change_pct = None\<rparr>
   \<and> Some (((0::real) - 100) / 100 * 100) \<noteq> None"
  by (simp add: indicator_for_def change_pct_def truthy_def last_close_def prev_close_def)

section \<open>Properties of the response parser\<close>

lemma validated_has_key: "validated r = Some d \<Longrightarrow> has_key d (lit ''signals'')"
  by (auto simp: validated_def has_key_def split: option.splits json.splits if_splits)

lemma has_key_empty_signals: "has_key empty_signals (lit ''signals'')"
  by (simp add: has_key_def empty_signals_def)

lemma fallback_a_has_key: "fallback_a loads text = Some (md, d) \<Longrightarrow> has_key d (lit ''signals'')"
  by (auto simp: fallback_a_def Let_def validated_has_key split: option.splits)

lemma fallback_b_cases:
  "fallback_b loads text = Inr None \<or>
   (\<exists>md d. fallback_b loads text = Inr (Some (md, d)) \<and> has_key d (lit ''signals''))"
  by (auto simp: fallback_b_def cut_balanced_json_eq validated_has_key split: option.splits)

lemma extract_marker:
  assumes "marker_search text = Some (s, e)"
  shows "extract_markdown_and_json loads (Some text) =
           (case validated (loads (strip (strip_code_fences (strip (drop e text))))) of
              Some d \<Rightarrow> Inr (strip (take s text), d)
            | None \<Rightarrow> Inr (strip (take s text), empty_signals))"
  using assms by (simp add: extract_markdown_and_json_def or_empty_def Let_def)

text \<open>The example responses, evaluated.\<close>

lemmas marker_eval = marker_search_def marker_at_def line_start_def last_newline_def skip_space_def
  isspace_def match_ci_def ci_variants_def lit_def upt_rec Let_def

lemmas loads_eval = json_loads_def skip_ws_def json_ws_def lit_def scan_number_def is_digit_def
  digits_value_def Let_def

lemmas strip_eval = strip_def strip_code_fences_def splitlines_def is_linebreak_def isspace_def lit_def
  Let_def suffix_to_prefix

lemma ex_bad_json_marker: "marker_search ex_bad_json = Some (7, 15)"
  by (simp add: ex_bad_json_def marker_eval)

lemma ex_bad_json_parts:
  "strip (take 7 ex_bad_json) = lit ''Report''"
  "strip (strip_code_fences (strip (drop 15 ex_bad_json))) = lit ''{oops''"
  by (simp_all add: ex_bad_json_def strip_eval)

lemma ex_loads_oops: "json_loads (lit ''{oops'') = None"
  by (simp add: loads_eval)

lemma ex_fenced_marker: "marker_search ex_fenced_bad_json = Some (8, 13)"
  by (simp add: ex_fenced_bad_json_def marker_eval)

lemma ex_fenced_parts:
  "strip (take 8 ex_fenced_bad_json) = lit ''Summary''"
  "strip (strip_code_fences (strip (drop 13 ex_fenced_bad_json))) = lit ''[1,]''"
  by (simp_all add: ex_fenced_bad_json_def strip_eval)

lemma ex_loads_trailing_comma: "json_loads (lit ''[1,]'') = None"
  by (simp add: loads_eval)

lemma ex_not_a_mapping_marker: "marker_search ex_not_a_mapping = Some (6, 12)"
  by (simp add: ex_not_a_mapping_def marker_eval)

lemma ex_not_a_mapping_parts:
  "strip (take 6 ex_not_a_mapping) = lit ''Intro''"
  "strip (strip_code_fences (strip (drop 12 ex_not_a_mapping))) = lit ''42''"
  "strip ex_not_a_mapping = ex_not_a_mapping"
  by (simp_all add: ex_not_a_mapping_def strip_eval)

lemma ex_loads_42: "json_loads (lit ''42'') = Some (JInt 42)"
  by (simp add: loads_eval)

lemma ex_plain_no_marker: "marker_search ex_plain = None"
  by (simp add: ex_plain_def marker_eval)

lemma ex_plain_fallbacks:
  "fallback_a json_loads ex_plain = None" "fallback_b json_loads ex_plain = Inr None"
  by (simp_all add: ex_plain_def fallback_a_def fallback_b_def find_sub_def last_signals_def
        signals_at_def lit_def upt_rec)

lemma ex_plain_strip: "strip ex_plain = lit ''Nothing to parse here.''"
  by (simp add: ex_plain_def strip_eval)

text \<open>
  Two responses that parse: a marker line followed by the signal object (the round trip
  of the specification, shortened), and the same object inline, found by the last
  occurrence of the inline pattern and cut out by the balanced-brace scanner.
\<close>

lemma ex_loads_signal: "json_loads ex_signal_json = Some (JDict ex_signal_dict)"
  by (simp add: ex_signal_json_def ex_signal_dict_def loads_eval)

lemma ex_round_trip_marker: "marker_search ex_round_trip = Some (6, 14)"
  by (simp add: ex_round_trip_def ex_signal_json_def marker_eval)

lemma ex_round_trip_parts:
  "strip (take 6 ex_round_trip) = lit ''Text.''"
  "strip (strip_code_fences (strip (drop 14 ex_round_trip))) = ex_signal_json"
  by (simp_all add: ex_round_trip_def ex_signal_json_def strip_eval)

lemma extract_round_trip_example:
  "extract_markdown_and_json json_loads (Some ex_round_trip) = Inr (lit ''Text.'', ex_signal_dict)"
  by (simp add: extract_marker[OF ex_round_trip_marker] ex_round_trip_parts ex_loads_signal validated_def
        has_key_def) (simp add: ex_signal_dict_def)

lemma ex_inline_search:
  "marker_search ex_inline = None" "find_sub ([10] @ lit ''JSON:'') ex_inline = None"
  "last_signals ex_inline = Some 5"
  by (simp_all add: ex_inline_def ex_signal_json_def marker_eval find_sub_def last_signals_def
        signals_at_def)

lemma ex_inline_cut: "cut_balanced_json ex_inline 5 = Inr ex_signal_json"
  by (simp add: ex_inline_def ex_signal_json_def cut_balanced_json_def getitem_def cut_loop.simps
        slice_def lit_def Let_def)

lemma ex_inline_strip: "strip (take 5 ex_inline) = lit ''Note''"
  by (simp add: ex_inline_def strip_eval)

lemma ex_signal_json_nonempty: "ex_signal_json \<noteq> []"
  by (simp add: ex_signal_json_def lit_def)

lemma ex_inline_fallback_a: "fallback_a json_loads ex_inline = None"
  using ex_inline_search(2) by (simp add: fallback_a_def)

lemma ex_inline_fallback_b: "fallback_b json_loads ex_inline = Inr (Some (lit ''Note'', ex_signal_dict))"
  by (simp add: fallback_b_def ex_inline_search ex_inline_cut ex_signal_json_nonempty ex_loads_signal
        validated_def has_key_def ex_inline_strip) (simp add: ex_signal_dict_def)

lemma extract_inline_example:
  "extract_markdown_and_json json_loads (Some ex_inline) = Inr (lit ''Note'', ex_signal_dict)"
  by (simp add: extract_markdown_and_json_def or_empty_def ex_inline_search ex_inline_fallback_a
        ex_inline_fallback_b)

text \<open>
  Claim C1, as the code has it. When the marker pattern matches and the text after the
  marker (trimmed, fences stripped, trimmed again) is not valid JSON, the parser raises
  nothing and returns the text before the marker, trimmed, as markdown, with the
  signal set \<open>{signals: []}\<close>: the marker line and the malformed JSON are not part of
  the markdown.
\<close>

theorem marker_with_invalid_json:
  assumes "marker_search text = Some (s, e)"
    and "loads (strip (strip_code_fences (strip (drop e text)))) = None"
  shows "extract_markdown_and_json loads (Some text) = Inr (strip (take s text), empty_signals)"
  using assms by (simp add: extract_marker validated_def)

text \<open>
  A marker line followed by a fenced, malformed list: the markdown is \<^verbatim>\<open>Summary\<close>.
\<close>

theorem marker_with_invalid_json_witness:
  "marker_search ex_fenced_bad_json = Some (8, 13)
   \<and> json_loads (strip (strip_code_fences (strip (drop 13 ex_fenced_bad_json)))) = None
   \<and> extract_markdown_and_json json_loads (Some ex_fenced_bad_json)
        = Inr (lit ''Summary'', empty_signals)"
proof -
  have l: "json_loads (strip (strip_code_fences (strip (drop 13 ex_fenced_bad_json)))) = None"
    by (simp only: ex_fenced_parts ex_loads_trailing_comma)
  from marker_with_invalid_json[of ex_fenced_bad_json 8 13 json_loads, OF ex_fenced_marker l]
  show ?thesis using l ex_fenced_marker by (simp add: ex_fenced_parts)
qed

text \<open>
  Where the claim as stated fails: the response \<^verbatim>\<open>Report\<close>, the marker line
  \<^verbatim>\<open>-->Json:\<close>, then \<^verbatim>\<open>{oops\<close>. The marker matches from index 7 to 15, the decoder
  rejects \<^verbatim>\<open>{oops\<close>, and the markdown returned is \<^verbatim>\<open>Report\<close>, not the entire text.
\<close>

theorem marker_with_invalid_json_counterexample:
  "marker_search ex_bad_json = Some (7, 15)
   \<and> strip (strip_code_fences (strip (drop 15 ex_bad_json))) = lit ''{oops''
   \<and> json_loads (lit ''{oops'') = None
   \<and> extract_markdown_and_json json_loads (Some ex_bad_json) = Inr (lit ''Report'', empty_signals)
   \<and> lit ''Report'' \<noteq> ex_bad_json"
proof -
  have "extract_markdown_and_json json_loads (Some ex_bad_json) = Inr (lit ''Report'', empty_signals)"
    by (simp add: extract_marker[OF ex_bad_json_marker] ex_bad_json_parts ex_loads_oops validated_def)
  moreover have "lit ''Report'' \<noteq> ex_bad_json" by (simp add: ex_bad_json_def lit_def)
  ultimately show ?thesis
    using ex_bad_json_marker ex_bad_json_parts ex_loads_oops by simp
qed

text \<open>
  Claim C3, as the code has it. For every decoder and every content (a string or
  \<^verbatim>\<open>None\<close>), the parser raises nothing and returns a markdown string with a mapping
  that has the key \<^verbatim>\<open>signals\<close>. When no marker line is found and neither fallback
  returns, the result is the whole text, trimmed, with \<open>{signals: []}\<close>. When a marker
  line is found and what follows does not decode to a mapping with the key or to a
  list, the result is the text before the marker, trimmed, with \<open>{signals: []}\<close>.
\<close>

theorem extract_never_raises:
  "(\<exists>md d. extract_markdown_and_json loads content = Inr (md, d) \<and> has_key d (lit ''signals''))
   \<and> (marker_search (or_empty content) = None \<and> fallback_a loads (or_empty content) = None
        \<and> fallback_b loads (or_empty content) = Inr None
      \<longrightarrow> extract_markdown_and_json loads content = Inr (strip (or_empty content), empty_signals))
   \<and> (\<forall>s e. marker_search (or_empty content) = Some (s, e)
        \<and> validated (loads (strip (strip_code_fences (strip (drop e (or_empty content)))))) = None
      \<longrightarrow> extract_markdown_and_json loads content
            = Inr (strip (take s (or_empty content)), empty_signals))"
proof -
  define tx where "tx = or_empty content"
  have ex: "extract_markdown_and_json loads content = extract_markdown_and_json loads (Some tx)"
    by (simp add: extract_markdown_and_json_def tx_def or_empty_def)
  have a: "\<exists>md d. extract_markdown_and_json loads (Some tx) = Inr (md, d) \<and> has_key d (lit ''signals'')"
  proof (cases "marker_search tx")
    case (Some se)
    obtain s e where "se = (s, e)" by (cases se)
    then show ?thesis using Some
      by (auto simp: extract_marker validated_has_key has_key_empty_signals split: option.splits)
  next
    case None
    note nm = None
    show ?thesis
    proof (cases "fallback_a loads tx")
      case (Some r)
      obtain md d where "r = (md, d)" by (cases r)
      then show ?thesis using nm Some fallback_a_has_key[of loads tx md d]
        by (simp add: extract_markdown_and_json_def or_empty_def)
    next
      case None
      then show ?thesis using nm fallback_b_cases[of loads tx]
        by (auto simp: extract_markdown_and_json_def or_empty_def has_key_empty_signals)
    qed
  qed
  have b: "marker_search tx = None \<and> fallback_a loads tx = None \<and> fallback_b loads tx = Inr None
      \<longrightarrow> extract_markdown_and_json loads (Some tx) = Inr (strip tx, empty_signals)"
    by (simp add: extract_markdown_and_json_def or_empty_def)
  have c: "\<forall>s e. marker_search tx = Some (s, e)
        \<and> validated (loads (strip (strip_code_fences (strip (drop e tx))))) = None
      \<longrightarrow> extract_markdown_and_json loads (Some tx) = Inr (strip (take s tx), empty_signals)"
    by (simp add: extract_marker)
  show ?thesis using a b c unfolding ex tx_def by blast
qed

text \<open>
  A text without marker or inline object comes back whole and trimmed; the response
  with the malformed JSON comes back as the text before its marker; \<^verbatim>\<open>None\<close> gives the
  empty markdown.
\<close>

theorem extract_never_raises_witness:
  "marker_search ex_plain = None \<and> fallback_a json_loads ex_plain = None
   \<and> fallback_b json_loads ex_plain = Inr None
   \<and> extract_markdown_and_json json_loads (Some ex_plain)
        = Inr (lit ''Nothing to parse here.'', empty_signals)
   \<and> marker_search ex_bad_json = Some (7, 15)
   \<and> validated (json_loads (strip (strip_code_fences (strip (drop 15 ex_bad_json))))) = None
   \<and> extract_markdown_and_json json_loads (Some ex_bad_json) = Inr (lit ''Report'', empty_signals)
   \<and> extract_markdown_and_json json_loads None = Inr ([], empty_signals)"
proof -
  have v: "validated (json_loads (strip (strip_code_fences (strip (drop 15 ex_bad_json))))) = None"
    by (simp add: ex_bad_json_parts ex_loads_oops validated_def)
  have p: "extract_markdown_and_json json_loads (Some ex_plain)
        = Inr (lit ''Nothing to parse here.'', empty_signals)"
    using extract_never_raises[of json_loads "Some ex_plain"] ex_plain_no_marker ex_plain_fallbacks
    by (simp add: or_empty_def ex_plain_strip)
  have b: "extract_markdown_and_json json_loads (Some ex_bad_json) = Inr (lit ''Report'', empty_signals)"
    using extract_never_raises[of json_loads "Some ex_bad_json"] ex_bad_json_marker v
    by (simp add: or_empty_def ex_bad_json_parts)
  have n: "extract_markdown_and_json json_loads None = Inr ([], empty_signals)"
    by (simp add: extract_markdown_and_json_def or_empty_def marker_eval fallback_a_def fallback_b_def
          find_sub_def last_signals_def strip_def)
  show ?thesis using v p b n ex_plain_no_marker ex_plain_fallbacks ex_bad_json_marker
    by simp
qed

text \<open>
  Where the claim as stated fails: \<^verbatim>\<open>Intro\<close>, the marker line \<^verbatim>\<open>json :\<close>, then \<^verbatim>\<open>42\<close>.
  The text after the marker decodes to a number, which is neither a mapping nor a list,
  so no strategy yields signals; the result is \<^verbatim>\<open>Intro\<close> with \<open>{signals: []}\<close>, not the
  whole text trimmed.
\<close>

theorem extract_whole_text_counterexample:
  "marker_search ex_not_a_mapping = Some (6, 12)
   \<and> json_loads (strip (strip_code_fences (strip (drop 12 ex_not_a_mapping)))) = Some (JInt 42)
   \<and> extract_markdown_and_json json_loads (Some ex_not_a_mapping) = Inr (lit ''Intro'', empty_signals)
   \<and> strip ex_not_a_mapping \<noteq> lit ''Intro''"
proof -
  have "extract_markdown_and_json json_loads (Some ex_not_a_mapping) = Inr (lit ''Intro'', empty_signals)"
    by (simp add: extract_marker[OF ex_not_a_mapping_marker] ex_not_a_mapping_parts ex_loads_42 validated_def)
  moreover have "strip ex_not_a_mapping \<noteq> lit ''Intro''"
    by (simp add: ex_not_a_mapping_parts) (simp add: ex_not_a_mapping_def lit_def)
  ultimately show ?thesis
    using ex_not_a_mapping_marker ex_not_a_mapping_parts ex_loads_42 by simp
qed

section \<open>Failure of the model call\<close>











end
